theory Spec2Isabelle
  imports Complex_Main
begin

unbundle bit_operations_syntax

section \<open>Leaderboard (leaderboard.js)\<close>

subsection \<open>Data\<close>

text \<open>
  A JavaScript string is the list of its UTF-16 code units; \<open>ascii\<close> writes one from
  an ASCII literal.
\<close>

type_synonym utf16 = "nat list"

definition ascii :: "string \<Rightarrow> utf16" where
  "ascii s = map of_char s"

text \<open>
  A stored document of the \<open>scores\<close> collection carries \<open>name\<close> and \<open>score\<close> (the
  \<open>createdAt\<close> server timestamp is written by \<open>submit\<close> and read nowhere, so it is left
  out). Scores are integer milliseconds. A document is its store-assigned id together
  with its data; \<open>{ ...d.data(), ts: d.id }\<close> is \<open>with_ts\<close>, and
  \<open>{ ...e, rank }\<close> is \<open>with_rank\<close>.
\<close>

record doc_data =
  name :: utf16
  score :: int

type_synonym document = "nat \<times> doc_data"

record entry = doc_data +
  ts :: nat

record ranked = entry +
  rank :: nat

record rank_result =
  rank :: nat
  isTied :: bool
  ts :: "nat option"

definition with_ts :: "document \<Rightarrow> entry" where
  "with_ts d = doc_data.extend (snd d) (entry.fields (fst d))"

definition with_rank :: "entry \<Rightarrow> nat \<Rightarrow> ranked" where
  "with_rank e r = entry.extend e (ranked.fields r)"

definition SIZE :: nat where
  "SIZE = 100"

subsection \<open>The backing store\<close>

text \<open>
  The store is the external Firestore service; only its interface is used by the code:
  an ascending bounded query and an insert that returns the new id, each of which may
  fail. The collection keeps its documents in insertion order, ids are handed out in
  increasing order, and the query sorts stably by score, so that equal scores come back
  in id order. Every request consumes one entry of the fault schedule \<open>faults\<close>
  (\<open>True\<close>: this request fails; an exhausted schedule means no more faults) and is
  counted in \<open>issued\<close>. A failed insert stores nothing.
\<close>

datatype exn = BackendError

datatype 'a completion = Normal 'a | Throw exn

record store =
  collection :: "document list"
  nextId :: nat
  faults :: "bool list"
  issued :: nat

definition request :: "store \<Rightarrow> bool \<times> store" where
  "request st =
     (case faults st of
        [] \<Rightarrow> (False, st\<lparr>issued := issued st + 1\<rparr>)
      | f # fs \<Rightarrow> (f, st\<lparr>faults := fs, issued := issued st + 1\<rparr>))"

definition fails_next :: "store \<Rightarrow> bool" where
  "fails_next st = (case faults st of [] \<Rightarrow> False | f # fs \<Rightarrow> f)"

definition window :: "store \<Rightarrow> document list" where
  "window st = take SIZE (sort_key (\<lambda>d. score (snd d)) (collection st))"

text \<open>\<open>col().orderBy('score').limit(SIZE).get()\<close>\<close>

definition get_window :: "store \<Rightarrow> document list completion \<times> store" where
  "get_window st =
     (case request st of
        (True, st') \<Rightarrow> (Throw BackendError, st')
      | (False, st') \<Rightarrow> (Normal (window st'), st'))"

text \<open>\<open>col().add({ name, score, createdAt })\<close>; the result is \<open>ref.id\<close>.\<close>

definition add_doc :: "store \<Rightarrow> utf16 \<Rightarrow> int \<Rightarrow> nat completion \<times> store" where
  "add_doc st n s =
     (case request st of
        (True, st') \<Rightarrow> (Throw BackendError, st')
      | (False, st') \<Rightarrow>
          (Normal (nextId st'),
           st'\<lparr>collection := collection st' @ [(nextId st', \<lparr>name = n, score = s\<rparr>)],
               nextId := nextId st' + 1\<rparr>))"

subsection \<open>withRanks\<close>

text \<open>
  \<open>docs.map((e, i, a) => ...)\<close> with the closure variable \<open>rank\<close>: the loop carries the
  index \<open>i\<close> and the current \<open>rank\<close>, and reads \<open>a[i - 1]\<close> from the whole array.
\<close>

fun withRanks_from :: "entry list \<Rightarrow> nat \<Rightarrow> nat \<Rightarrow> entry list \<Rightarrow> ranked list" where
  "withRanks_from a i r [] = []"
| "withRanks_from a i r (e # es) =
     (let r' = (if i > 0 \<and> score e \<noteq> score (a ! (i - 1)) then i + 1 else r)
      in with_rank e r' # withRanks_from a (i + 1) r' es)"

definition withRanks :: "entry list \<Rightarrow> ranked list" where
  "withRanks docs = withRanks_from docs 0 1 docs"

subsection \<open>peek, submit, getTop\<close>

text \<open>
  Each operation is an \<open>async\<close> function whose whole body sits in \<open>try { ... } catch\<close>.
  The \<open>_try\<close> function is the body, which may complete abruptly; the operation itself
  applies the handler.
\<close>

definition peek_rank :: "doc_data list \<Rightarrow> int \<Rightarrow> rank_result option" where
  "peek_rank docs sc =
     (if length docs \<ge> SIZE \<and> sc > score (last docs) then None
      else
        let better = length (filter (\<lambda>d. score d < sc) docs);
            tied = list_ex (\<lambda>d. score d = sc) docs
        in Some \<lparr>rank = better + 1, isTied = tied, ts = None\<rparr>)"

definition peek_try :: "store \<Rightarrow> int \<Rightarrow> rank_result option completion \<times> store" where
  "peek_try st sc =
     (case get_window st of
        (Throw x, st') \<Rightarrow> (Throw x, st')
      | (Normal snap, st') \<Rightarrow> (Normal (peek_rank (map snd snap) sc), st'))"

definition peek :: "store \<Rightarrow> int \<Rightarrow> rank_result option completion \<times> store" where
  "peek st sc =
     (case peek_try st sc of
        (Throw x, st') \<Rightarrow> (Normal None, st')
      | (Normal r, st') \<Rightarrow> (Normal r, st'))"

definition submit_rank :: "nat \<Rightarrow> entry list \<Rightarrow> int \<Rightarrow> rank_result option" where
  "submit_rank ref docs sc =
     (if \<not> list_ex (\<lambda>d. entry.ts d = ref) docs then None
      else
        let better = length (filter (\<lambda>d. score d < sc) docs);
            tied = length (filter (\<lambda>d. score d = sc) docs) > 1
        in Some \<lparr>rank = better + 1, isTied = tied, ts = Some ref\<rparr>)"

definition submit_try ::
  "store \<Rightarrow> utf16 \<Rightarrow> int \<Rightarrow> rank_result option completion \<times> store" where
  "submit_try st n sc =
     (case add_doc st n sc of
        (Throw x, st') \<Rightarrow> (Throw x, st')
      | (Normal ref, st') \<Rightarrow>
          (case get_window st' of
             (Throw x, st'') \<Rightarrow> (Throw x, st'')
           | (Normal snap, st'') \<Rightarrow> (Normal (submit_rank ref (map with_ts snap) sc), st'')))"

definition submit ::
  "store \<Rightarrow> utf16 \<Rightarrow> int \<Rightarrow> rank_result option completion \<times> store" where
  "submit st n sc =
     (case submit_try st n sc of
        (Throw x, st') \<Rightarrow> (Normal None, st')
      | (Normal r, st') \<Rightarrow> (Normal r, st'))"

definition getTop_try :: "store \<Rightarrow> nat \<Rightarrow> ranked list completion \<times> store" where
  "getTop_try st n =
     (case get_window st of
        (Throw x, st') \<Rightarrow> (Throw x, st')
      | (Normal snap, st') \<Rightarrow> (Normal (take n (withRanks (map with_ts snap))), st'))"

definition getTop :: "store \<Rightarrow> nat \<Rightarrow> ranked list completion \<times> store" where
  "getTop st n =
     (case getTop_try st n of
        (Throw x, st') \<Rightarrow> (Normal [], st')
      | (Normal r, st') \<Rightarrow> (Normal r, st'))"

subsection \<open>The operations between their awaits\<close>

text \<open>
  A caller of an \<open>async\<close> operation runs it up to its first \<open>await\<close>, which issues the
  request (\<open>get_window\<close>, \<open>add_doc\<close>); the rest runs when the answer arrives. These are
  the rests: what \<open>peek\<close> and \<open>getTop\<close> return on the answer to their query, and what
  \<open>submit\<close> returns on the answer to its second request, the query issued once the
  insert has answered with \<open>ref\<close>. An answer that is a failure lands in the handler.
\<close>

definition peek_done :: "document list completion \<Rightarrow> int \<Rightarrow> rank_result option" where
  "peek_done answer sc =
     (case answer of
        Throw x \<Rightarrow> None
      | Normal snap \<Rightarrow> peek_rank (map snd snap) sc)"

definition getTop_done :: "document list completion \<Rightarrow> nat \<Rightarrow> ranked list" where
  "getTop_done answer n =
     (case answer of
        Throw x \<Rightarrow> []
      | Normal snap \<Rightarrow> take n (withRanks (map with_ts snap)))"

definition submit_done :: "nat \<Rightarrow> document list completion \<Rightarrow> int \<Rightarrow> rank_result option" where
  "submit_done ref answer sc =
     (case answer of
        Throw x \<Rightarrow> None
      | Normal snap \<Rightarrow> submit_rank ref (map with_ts snap) sc)"

section \<open>The game (game.js)\<close>

subsection \<open>Configuration and utilities\<close>

definition ROUNDS :: nat where "ROUNDS = 5"
definition MIN_DELAY :: real where "MIN_DELAY = 2000"
definition MAX_DELAY :: real where "MAX_DELAY = 6000"
definition FAKE_CHANCE :: real where "FAKE_CHANCE = 38 / 100"
definition FAKE_MIN_DELAY :: real where "FAKE_MIN_DELAY = 1200"
definition FAKE_MAX_DELAY :: real where "FAKE_MAX_DELAY = 3500"
definition FAKE_DURATION :: real where "FAKE_DURATION = 130"
definition REAL_AFTER_FAKE :: real where "REAL_AFTER_FAKE = 900"
definition RESULT_PAUSE :: real where "RESULT_PAUSE = 1100"
definition TOO_EARLY_PAUSE :: real where "TOO_EARLY_PAUSE = 1400"

text \<open>
  Everything the code takes from its surroundings during one handler: the clock
  (\<open>performance.now()\<close>), the two \<open>Math.random()\<close> draws of \<open>_beginRound\<close> (\<open>coin\<close> decides
  the trick round, \<open>jitter\<close> is the draw inside \<open>rand\<close>), and the result of
  \<open>pickColorPair()\<close>, two colours of the palette. A clock reading is the real number
  that the double denotes. A colour \<open>#rrggbb\<close> is the number it denotes.
\<close>

type_synonym color = nat

record env =
  now :: real
  coin :: real
  jitter :: real
  pair :: "color \<times> color"

definition rand :: "env \<Rightarrow> real \<Rightarrow> real \<Rightarrow> real" where
  "rand e lo hi = jitter e * (hi - lo) + lo"

definition lightenHex :: "color \<Rightarrow> nat \<Rightarrow> color" where
  "lightenHex n amt =
     (let r = min 255 (drop_bit 16 n + amt);
          g = min 255 ((drop_bit 8 n AND 0xff) + amt);
          b = min 255 ((n AND 0xff) + amt)
      in push_bit 16 r OR push_bit 8 g OR b)"

definition pickColorPair :: "env \<Rightarrow> color \<times> color" where
  "pickColorPair e = pair e"

text \<open>
  The subtraction of two doubles is the exact difference rounded to the nearest double,
  a tie going to the even significand (IEEE 754 binary64, with its gradual underflow;
  the overflow to infinity, beyond \<open>2^1024\<close>, is out of a clock's reach and left out).
  \<open>ilog2 n\<close> is the position of the leading bit of \<open>n\<close>, \<open>exponent a\<close> the binary
  exponent of a positive \<open>a\<close>, and the doubles around \<open>x\<close> are the multiples of
  \<open>ulp x\<close>.
\<close>

fun ilog2 :: "nat \<Rightarrow> nat" where
  "ilog2 n = (if n < 2 then 0 else Suc (ilog2 (n div 2)))"

declare ilog2.simps [simp del]

definition exponent :: "real \<Rightarrow> int" where
  "exponent a =
     (if 1 \<le> a then int (ilog2 (nat \<lfloor>a\<rfloor>))
      else - int (Suc (ilog2 (nat \<lceil>1 / a\<rceil> - 1))))"

definition ulp :: "real \<Rightarrow> real" where
  "ulp x = 2 powi (max (exponent \<bar>x\<bar>) (- 1022) - 52)"

definition round_even :: "real \<Rightarrow> int" where
  "round_even y =
     (let f = \<lfloor>y\<rfloor>; r = y - of_int f
      in if r < 1 / 2 then f
         else if 1 / 2 < r then f + 1
         else if even f then f else f + 1)"

definition to_double :: "real \<Rightarrow> real" where
  "to_double x = (if x = 0 then 0 else of_int (round_even (x / ulp x)) * ulp x)"

definition double_minus :: "real \<Rightarrow> real \<Rightarrow> real" where
  "double_minus a b = to_double (a - b)"

text \<open>\<open>Math.round\<close>: to the nearest integer, a half rounds up.\<close>

definition Math_round :: "real \<Rightarrow> int" where
  "Math_round x = \<lfloor>x + 1 / 2\<rfloor>"

text \<open>
  \<open>Math.round(scores.reduce((a, b) => a + b, 0) / scores.length)\<close>; on the empty
  array the quotient is \<open>0 / 0\<close>, and the result \<open>NaN\<close> is \<open>None\<close>.
\<close>

definition average :: "int list \<Rightarrow> int option" where
  "average xs =
     (if length xs = 0 then None
      else Some (Math_round (real_of_int (foldl (+) 0 xs) / real (length xs))))"

text \<open>
  \<open>String.prototype.trim\<close> removes the white space and the line terminators of
  ECMAScript from both ends: TAB, LF, VT, FF, CR, the space, the no-break space, the
  other space separators of Unicode, the line and paragraph separators and the byte
  order mark.
\<close>

definition is_space :: "nat \<Rightarrow> bool" where
  "is_space c =
     (c \<in> set [0x0009, 0x000A, 0x000B, 0x000C, 0x000D, 0x0020, 0x00A0, 0x1680,
                0x2000, 0x2001, 0x2002, 0x2003, 0x2004, 0x2005, 0x2006, 0x2007,
                0x2008, 0x2009, 0x200A, 0x2028, 0x2029, 0x202F, 0x205F, 0x3000, 0xFEFF])"

definition trim :: "utf16 \<Rightarrow> utf16" where
  "trim s = rev (dropWhile is_space (rev (dropWhile is_space s)))"

subsection \<open>State\<close>

datatype phase = Idle | Waiting | Ready | Paused

text \<open>
  The bodies handed to \<open>setTimeout\<close>. They close over \<open>this\<close> only, so each is
  determined by its place in the code: the fake timer of \<open>_beginRound\<close>, the two
  textually identical real-change timers, the revert of \<open>_triggerFake\<close>, and the pause
  timers of \<open>_tooEarly\<close> and \<open>_recordScore\<close>.
\<close>

datatype callback = FakeFire | RealChange | FakeRevert | RetryRound | AfterScore

text \<open>
  The suspended remainders of the \<open>async\<close> methods, each with the arguments evaluated
  at the call and the answers to the requests that the call has issued:
  \<open>_showResults\<close> waiting for \<open>Promise.all([peek, _renderLeaderboard(null)])\<close>, with
  the answers to the query of \<open>peek\<close> and to the query of \<open>getTop\<close>;
  \<open>_submitToLeaderboard\<close> waiting inside \<open>Leaderboard.submit\<close> for the insert, and
  then for the query that follows it; and a \<open>_renderLeaderboard\<close> waiting for the query
  of its \<open>getTop\<close>.
\<close>

datatype continuation =
    ResultsCont int "document list completion" "document list completion"
  | SubmitCont utf16 int "nat completion"
  | QueryCont int nat "document list completion"
  | RenderCont "nat option" "document list completion"

datatype screen = IntroScreen | GameScreen | ResultsScreen

datatype message = NoMsg | Prompt | Now | TooEarly | ScoreMs int

datatype rank_view =
    Blank
  | Unranked bool
  | Confirmed bool nat
  | Preview bool nat

datatype board_view =
    NoBoard
  | FirstOnBoard
  | Rows "(ranked \<times> bool) list" "(nat \<times> utf16 \<times> int option) option"

text \<open>
  The fields of the \<open>DontBlink\<close> object, followed by what it reads and writes in the
  page: the pending timeouts of the browser (handle, callback, delay), the next
  handle, the suspended continuations, and the parts of the document and of
  \<open>localStorage\<close> that the handlers touch. An average of \<open>None\<close> is \<open>NaN\<close>. Pure
  styling (the dots, the round indicator, the shake and pop animations, the score
  breakdown and the best-score label) is derived from these fields and not kept; nor
  is the share text with its feedback timeout, which touches a style class only.
\<close>

record game =
  state :: phase
  roundNum :: int
  scores :: "int list"
  fromColor :: "color option"
  toColor :: "color option"
  changeAt :: "real option"
  avg :: "int option"
  submitted :: bool
  myTs :: "nat option"
  myRankResult :: "rank_result option"
  waitTimer :: "nat option"
  fakeTimer :: "nat option"
  fakeRevert :: "nat option"
  pauseTimer :: "nat option"
  timers :: "(nat \<times> callback \<times> real) list"
  nextTimer :: nat
  awaiting :: "continuation list"
  bg :: "color option"
  msg :: message
  shown :: screen
  playerName :: utf16
  saveDisabled :: bool
  rankDisplay :: rank_view
  board :: board_view
  db_best :: "int option"
  db_name :: "utf16 option"

definition init_game :: "int option \<Rightarrow> utf16 option \<Rightarrow> game" where
  "init_game best nm =
     \<lparr>state = Idle, roundNum = 0, scores = [], fromColor = None, toColor = None,
      changeAt = None, avg = Some 0, submitted = False, myTs = None, myRankResult = None,
      waitTimer = None, fakeTimer = None, fakeRevert = None, pauseTimer = None,
      timers = [], nextTimer = 1, awaiting = [], bg = None, msg = NoMsg,
      shown = IntroScreen, playerName = [], saveDisabled = False, rankDisplay = Blank,
      board = NoBoard, db_best = best, db_name = nm\<rparr>"

subsection \<open>Timers and UI helpers\<close>

definition setTimeout :: "callback \<Rightarrow> real \<Rightarrow> game \<Rightarrow> nat \<times> game" where
  "setTimeout cb d g =
     (nextTimer g, g\<lparr>timers := timers g @ [(nextTimer g, cb, d)], nextTimer := nextTimer g + 1\<rparr>)"

definition clearTimeout :: "nat option \<Rightarrow> game \<Rightarrow> game" where
  "clearTimeout h g =
     (case h of None \<Rightarrow> g | Some i \<Rightarrow> g\<lparr>timers := filter (\<lambda>t. fst t \<noteq> i) (timers g)\<rparr>)"

definition clearAllTimers :: "game \<Rightarrow> game" where
  "clearAllTimers g =
     (let g = clearTimeout (waitTimer g) g;
          g = clearTimeout (fakeTimer g) g;
          g = clearTimeout (fakeRevert g) g;
          g = clearTimeout (pauseTimer g) g
      in g\<lparr>waitTimer := None, fakeTimer := None, fakeRevert := None, pauseTimer := None\<rparr>)"

definition setState :: "phase \<Rightarrow> game \<Rightarrow> game" where
  "setState s g = g\<lparr>state := s\<rparr>"

definition setBg :: "color option \<Rightarrow> game \<Rightarrow> game" where
  "setBg c g = g\<lparr>bg := c\<rparr>"

definition setMsg :: "message \<Rightarrow> game \<Rightarrow> game" where
  "setMsg m g = g\<lparr>msg := m\<rparr>"

definition showScreen :: "screen \<Rightarrow> game \<Rightarrow> game" where
  "showScreen s g = g\<lparr>shown := s\<rparr>"

subsection \<open>Game flow\<close>

definition beginRound :: "env \<Rightarrow> game \<Rightarrow> game" where
  "beginRound e g =
     (let g = clearAllTimers g;
          g = g\<lparr>roundNum := roundNum g + 1\<rparr>;
          g = setState Waiting g;
          (c1, c2) = pickColorPair e;
          g = g\<lparr>fromColor := Some c1, toColor := Some c2\<rparr>;
          g = setBg (fromColor g) g;
          g = setMsg Prompt g;
          hasFake = (coin e < FAKE_CHANCE)
      in if hasFake then
           let (h, g) = setTimeout FakeFire (rand e FAKE_MIN_DELAY FAKE_MAX_DELAY) g
           in g\<lparr>fakeTimer := Some h\<rparr>
         else
           let (h, g) = setTimeout RealChange (rand e MIN_DELAY MAX_DELAY) g
           in g\<lparr>waitTimer := Some h\<rparr>)"

definition startGame :: "env \<Rightarrow> game \<Rightarrow> game" where
  "startGame e g =
     (let g = g\<lparr>roundNum := 0, scores := []\<rparr>;
          g = showScreen GameScreen g
      in beginRound e g)"

text \<open>
  \<open>lightenHex(this.fromColor, 65)\<close> throws a \<open>TypeError\<close> on \<open>null\<close>, before anything
  is changed: \<open>None\<close>.
\<close>

definition triggerFake :: "game \<Rightarrow> game option" where
  "triggerFake g =
     (case fromColor g of
        None \<Rightarrow> None
      | Some c \<Rightarrow>
          let g = setBg (Some (lightenHex c 65)) g;
              (h, g) = setTimeout FakeRevert FAKE_DURATION g
          in Some (g\<lparr>fakeRevert := Some h\<rparr>))"

definition triggerChange :: "env \<Rightarrow> game \<Rightarrow> game" where
  "triggerChange e g =
     (let g = setState Ready g;
          g = g\<lparr>changeAt := Some (now e)\<rparr>;
          g = setBg (toColor g) g
      in setMsg Now g)"

definition tooEarly :: "game \<Rightarrow> game" where
  "tooEarly g =
     (let g = clearAllTimers g;
          g = setState Paused g;
          g = setBg (Some 0x3d0000) g;
          g = setMsg TooEarly g;
          (h, g) = setTimeout RetryRound TOO_EARLY_PAUSE g
      in g\<lparr>pauseTimer := Some h\<rparr>)"

text \<open>
  \<open>_updateDots\<close> evaluates \<open>Array(CFG.ROUNDS - this.scores.length)\<close>, which throws a
  \<open>RangeError\<close> on a negative length; the handler then ends before the pause timer is
  set.
\<close>

definition recordScore :: "int \<Rightarrow> game \<Rightarrow> game" where
  "recordScore ms g =
     (let g = clearAllTimers g;
          g = setState Paused g;
          g = g\<lparr>scores := scores g @ [ms]\<rparr>;
          g = setMsg (ScoreMs ms) g
      in if ROUNDS < length (scores g) then g
         else
           let (h, g) = setTimeout AfterScore RESULT_PAUSE g
           in g\<lparr>pauseTimer := Some h\<rparr>)"

text \<open>
  \<open>performance.now() - this.changeAt\<close> is a subtraction of doubles, and reads \<open>null\<close>
  as \<open>0\<close>.
\<close>

definition onGameClick :: "env \<Rightarrow> game \<Rightarrow> game" where
  "onGameClick e g =
     (if state g = Waiting then tooEarly g
      else if state g = Ready then
        let ms = Math_round
                   (double_minus (now e) (case changeAt g of None \<Rightarrow> 0 | Some t \<Rightarrow> t))
        in recordScore ms g
      else g)"

definition goToIntro :: "game \<Rightarrow> game" where
  "goToIntro g =
     (let g = clearAllTimers g;
          g = setState Idle g
      in showScreen IntroScreen g)"

subsection \<open>Results and leaderboard flow\<close>

definition updateRankDisplay :: "rank_result option \<Rightarrow> bool \<Rightarrow> game \<Rightarrow> game" where
  "updateRankDisplay rankResult sub g =
     (case rankResult of
        None \<Rightarrow> g\<lparr>rankDisplay := Unranked sub\<rparr>
      | Some r \<Rightarrow>
          if sub then g\<lparr>rankDisplay := Confirmed (isTied r) (rank_result.rank r)\<rparr>
          else g\<lparr>rankDisplay := Preview (isTied r) (rank_result.rank r)\<rparr>)"

text \<open>
  \<open>_renderLeaderboard(myTs)\<close> up to its \<open>await\<close>: \<open>getTop(10)\<close> issues its query. The
  rest, \<open>renderBoard\<close>, runs on the entries that \<open>getTop\<close> returns: the rows with their
  \<open>isYou\<close> marks and, for a player ranked outside the ten, the appended row.
\<close>

definition renderLeaderboard :: "nat option \<Rightarrow> game \<times> store \<Rightarrow> game \<times> store" where
  "renderLeaderboard ts0 w =
     (case w of (g, st) \<Rightarrow>
        (case get_window st of
           (tp, st') \<Rightarrow> (g\<lparr>awaiting := awaiting g @ [RenderCont ts0 tp]\<rparr>, st')))"

definition renderBoard :: "nat option \<Rightarrow> ranked list \<Rightarrow> game \<Rightarrow> game" where
  "renderBoard ts0 entries g =
     (if length entries = 0 then g\<lparr>board := FirstOnBoard\<rparr>
      else
        let inTop = (case ts0 of None \<Rightarrow> False | Some i \<Rightarrow> list_ex (\<lambda>e. entry.ts e = i) entries);
            rows = map (\<lambda>e. (e, Some (entry.ts e) = ts0)) entries;
            extra =
              (if ts0 \<noteq> None \<and> \<not> inTop then
                 (case myRankResult g of
                    None \<Rightarrow> None
                  | Some r \<Rightarrow>
                      Some (rank_result.rank r,
                            if trim (playerName g) = [] then ascii ''You'' else trim (playerName g),
                            avg g))
               else None)
        in g\<lparr>board := Rows rows extra\<rparr>)"

text \<open>
  \<open>_showResults\<close> up to its \<open>await\<close>. The stored best is the number this code wrote
  (\<open>parseInt\<close> of an absent value reads \<open>999999\<close>); a comparison with \<open>NaN\<close> is false; an
  empty saved name is falsy. The two calls in \<open>Promise.all\<close> issue the query of \<open>peek\<close>
  and then the query of \<open>getTop\<close>. An average of \<open>NaN\<close> is not a score of the store
  model, and a call of the leaderboard with it is left out; \<open>_showResults\<close> runs only
  on at least \<open>ROUNDS\<close> scores.
\<close>

definition showResults :: "game \<times> store \<Rightarrow> game \<times> store" where
  "showResults w =
     (case w of (g, st) \<Rightarrow>
        let a = average (scores g);
            g = g\<lparr>avg := a, submitted := False, myTs := None, myRankResult := None\<rparr>;
            best = (case db_best g of None \<Rightarrow> 999999 | Some b \<Rightarrow> b);
            g = (if (case a of None \<Rightarrow> False | Some x \<Rightarrow> x < best) then g\<lparr>db_best := a\<rparr> else g);
            g = g\<lparr>rankDisplay := Blank, saveDisabled := False\<rparr>;
            g = (case db_name g of
                   None \<Rightarrow> g
                 | Some n \<Rightarrow> if n = [] then g else g\<lparr>playerName := n\<rparr>);
            g = showScreen ResultsScreen g
        in (case a of
              None \<Rightarrow> (g, st)
            | Some sc \<Rightarrow>
                (case get_window st of
                   (pk, st1) \<Rightarrow>
                     (case get_window st1 of
                        (tp, st2) \<Rightarrow> (g\<lparr>awaiting := awaiting g @ [ResultsCont sc pk tp]\<rparr>, st2)))))"

text \<open>
  \<open>_submitToLeaderboard\<close> up to its first \<open>await\<close>: the call of \<open>Leaderboard.submit\<close>
  issues the insert.
\<close>

definition submitToLeaderboard :: "game \<times> store \<Rightarrow> game \<times> store" where
  "submitToLeaderboard w =
     (case w of (g, st) \<Rightarrow>
        if submitted g then (g, st)
        else
          let n = trim (playerName g)
          in if n = [] then (g, st)
             else
               let g = g\<lparr>submitted := True\<rparr>;
                   g = g\<lparr>db_name := Some n\<rparr>;
                   g = g\<lparr>saveDisabled := True\<rparr>
               in (case avg g of
                     None \<Rightarrow> (g, st)
                   | Some sc \<Rightarrow>
                       (case add_doc st n sc of
                          (added, st') \<Rightarrow> (g\<lparr>awaiting := awaiting g @ [SubmitCont n sc added]\<rparr>, st'))))"

text \<open>
  \<open>_submitToLeaderboard\<close> from the result of \<open>Leaderboard.submit\<close> to its second
  \<open>await\<close>.
\<close>

definition afterSubmit :: "rank_result option \<Rightarrow> game \<times> store \<Rightarrow> game \<times> store" where
  "afterSubmit result w =
     (case w of (g, st) \<Rightarrow>
        let g = g\<lparr>myRankResult := result\<rparr>;
            g = (case result of None \<Rightarrow> g | Some r \<Rightarrow> g\<lparr>myTs := rank_result.ts r\<rparr>);
            g = updateRankDisplay result True g
        in renderLeaderboard (myTs g) (g, st))"

text \<open>
  A continuation resumes when its answers have arrived. \<open>_showResults\<close> has by then
  rendered the board and shows the preview rank. \<open>Leaderboard.submit\<close> returns \<open>null\<close>
  on a failed insert and otherwise issues its query and waits again; on the answer to
  the query it returns its result. \<open>_renderLeaderboard\<close> renders the board.
\<close>

definition resume :: "continuation \<Rightarrow> game \<times> store \<Rightarrow> game \<times> store" where
  "resume k w =
     (case w of (g, st) \<Rightarrow>
        (case k of
           ResultsCont sc pk tp \<Rightarrow>
             (updateRankDisplay (peek_done pk sc) False (renderBoard None (getTop_done tp 10) g), st)
         | SubmitCont n sc added \<Rightarrow>
             (case added of
                Throw x \<Rightarrow> afterSubmit None (g, st)
              | Normal ref \<Rightarrow>
                  (case get_window st of
                     (answer, st') \<Rightarrow> (g\<lparr>awaiting := awaiting g @ [QueryCont sc ref answer]\<rparr>, st')))
         | QueryCont sc ref answer \<Rightarrow> afterSubmit (submit_done ref answer sc) (g, st)
         | RenderCont ts0 tp \<Rightarrow> (renderBoard ts0 (getTop_done tp 10) g, st)))"

subsection \<open>Timer callbacks and events\<close>

definition run_callback :: "callback \<Rightarrow> env \<Rightarrow> game \<times> store \<Rightarrow> game \<times> store" where
  "run_callback cb e w =
     (case w of (g, st) \<Rightarrow>
        (case cb of
           FakeFire \<Rightarrow>
             if state g \<noteq> Waiting then (g, st)
             else
               (case triggerFake g of
                  None \<Rightarrow> (g, st)
                | Some g \<Rightarrow>
                    let realDelay = FAKE_DURATION + rand e REAL_AFTER_FAKE (REAL_AFTER_FAKE + 1500);
                        (h, g) = setTimeout RealChange realDelay g
                    in (g\<lparr>waitTimer := Some h\<rparr>, st))
         | RealChange \<Rightarrow> if state g \<noteq> Waiting then (g, st) else (triggerChange e g, st)
         | FakeRevert \<Rightarrow> if state g = Waiting then (setBg (fromColor g) g, st) else (g, st)
         | RetryRound \<Rightarrow> (beginRound e (g\<lparr>roundNum := roundNum g - 1\<rparr>), st)
         | AfterScore \<Rightarrow>
             if ROUNDS \<le> length (scores g) then showResults (g, st) else (beginRound e g, st)))"

text \<open>
  What can happen to the page: the start button, a click or touch on the game area, a
  pending timeout coming due, the play-again button, typing into the name field, the
  save button or the Enter key, and a pending continuation being resumed. A timeout
  that is not pending, or a continuation that is not suspended, does nothing.
\<close>

datatype event =
    Start
  | Click
  | Fire nat
  | PlayAgain
  | NameInput utf16
  | Save
  | Resume nat

definition fire :: "nat \<Rightarrow> env \<Rightarrow> game \<times> store \<Rightarrow> game \<times> store" where
  "fire h e w =
     (case w of (g, st) \<Rightarrow>
        (case find (\<lambda>t. fst t = h) (timers g) of
           None \<Rightarrow> (g, st)
         | Some (h', cb, d) \<Rightarrow>
             run_callback cb e (g\<lparr>timers := filter (\<lambda>t. fst t \<noteq> h) (timers g)\<rparr>, st)))"

definition step :: "event \<Rightarrow> env \<Rightarrow> game \<times> store \<Rightarrow> game \<times> store" where
  "step ev e w =
     (case w of (g, st) \<Rightarrow>
        (case ev of
           Start \<Rightarrow> (startGame e g, st)
         | Click \<Rightarrow> (onGameClick e g, st)
         | Fire h \<Rightarrow> fire h e (g, st)
         | PlayAgain \<Rightarrow> (goToIntro g, st)
         | NameInput s \<Rightarrow> (g\<lparr>playerName := s\<rparr>, st)
         | Save \<Rightarrow> submitToLeaderboard (g, st)
         | Resume i \<Rightarrow>
             if i < length (awaiting g)
             then resume (awaiting g ! i) (g\<lparr>awaiting := take i (awaiting g) @ drop (Suc i) (awaiting g)\<rparr>, st)
             else (g, st)))"

fun run :: "(event \<times> env) list \<Rightarrow> game \<times> store \<Rightarrow> game \<times> store" where
  "run [] w = w"
| "run ((ev, e) # es) w = run es (step ev e w)"

text \<open>
  The states the page can be in: it starts from the constructor's state with whatever
  \<open>localStorage\<close> and the store hold, every event leads to a next state, and other
  players may change the store at any time.
\<close>

inductive reachable :: "game \<times> store \<Rightarrow> bool" where
  reach_init: "reachable (init_game best nm, st)"
| reach_step: "reachable w \<Longrightarrow> reachable (step ev e w)"
| reach_store: "reachable (g, st) \<Longrightarrow> reachable (g, st')"

section \<open>Invariants of the reachable states\<close>

text \<open>
  \<open>tracked\<close>: the handle of every pending timeout is held in one of the four timer
  fields, so that \<open>_clearAllTimers\<close> revokes all of them. \<open>alone cb\<close>: a pending
  timeout with callback \<open>cb\<close> is the only pending timeout. \<open>round_inv\<close> collects what
  holds in every reachable state.
\<close>

definition tracked :: "game \<Rightarrow> bool" where
  "tracked g =
     (\<forall>t \<in> set (timers g).
        waitTimer g = Some (fst t) \<or> fakeTimer g = Some (fst t) \<or>
        fakeRevert g = Some (fst t) \<or> pauseTimer g = Some (fst t))"

definition pending :: "callback \<Rightarrow> game \<Rightarrow> bool" where
  "pending cb g = (\<exists>t \<in> set (timers g). fst (snd t) = cb)"

definition alone :: "callback \<Rightarrow> game \<Rightarrow> bool" where
  "alone cb g = (pending cb g \<longrightarrow> length (timers g) = 1)"

definition in_round :: "game \<Rightarrow> bool" where
  "in_round g = (state g = Waiting \<or> state g = Ready)"

definition round_inv :: "game \<Rightarrow> bool" where
  "round_inv g =
     (tracked g \<and> alone FakeFire g \<and> alone RetryRound g \<and> alone AfterScore g \<and>
      (state g = Ready \<longrightarrow> changeAt g \<noteq> None) \<and>
      (in_round g \<or> pending RetryRound g \<longrightarrow>
         length (scores g) < ROUNDS \<and> roundNum g = int (length (scores g)) + 1) \<and>
      (pending AfterScore g \<longrightarrow> roundNum g = int (length (scores g))))"

text \<open>
  \<open>results_inv\<close>: while the results are shown no round is running, no timeout is
  pending and the average is a number, and the pause after a score is only pending
  while the machine is paused.
  \<open>quiet\<close>: no round is running and no timeout is pending.
\<close>

definition results_inv :: "game \<Rightarrow> bool" where
  "results_inv g =
     ((shown g = ResultsScreen \<longrightarrow> timers g = [] \<and> \<not> in_round g \<and> avg g \<noteq> None) \<and>
      (pending AfterScore g \<longrightarrow> state g = Paused))"

definition quiet :: "game \<Rightarrow> bool" where
  "quiet g = (timers g = [] \<and> \<not> in_round g)"

section \<open>Example values\<close>

definition example_store :: store where
  "example_store =
     \<lparr>collection = [(0, \<lparr>name = ascii ''ann'', score = 100\<rparr>),
                    (1, \<lparr>name = ascii ''bob'', score = 100\<rparr>),
                    (2, \<lparr>name = ascii ''cy'', score = 150\<rparr>)],
      nextId = 3, faults = [], issued = 0\<rparr>"

definition env_at :: "real \<Rightarrow> env" where
  "env_at t = \<lparr>now = t, coin = 1 / 2, jitter = 1 / 2, pair = (0x1a1a2e, 0xc1121f)\<rparr>"

definition example_start :: "game \<times> store" where
  "example_start = (init_game None None, example_store)"

definition round_events :: "nat \<Rightarrow> real \<Rightarrow> real \<Rightarrow> (event \<times> env) list" where
  "round_events h t elapsed =
     [(Fire h, env_at t), (Click, env_at (t + elapsed)), (Fire (h + 1), env_at (t + elapsed + 1100))]"

definition session_events :: "(event \<times> env) list" where
  "session_events =
     (Start, env_at 0) #
     round_events 1 3000 180 @ round_events 3 8000 150 @ round_events 5 13000 220 @
     round_events 7 18000 190 @ round_events 9 23000 160"

text \<open>
  A store whose third request fails: the two queries of \<open>_showResults\<close> are answered,
  the insert of the submission is not.
\<close>

definition offline_start :: "game \<times> store" where
  "offline_start = (init_game None None, example_store\<lparr>faults := [False, False, True]\<rparr>)"

definition results_events :: "(event \<times> env) list" where
  "results_events =
     session_events @ [(NameInput ([0x00A0, 0x0020] @ ascii ''amy'' @ [0x3000]), env_at 30000)]"

text \<open>The doubles nearest to 2000.2 and to 4100.7.\<close>

definition double_2000_2 :: real where
  "double_2000_2 = 8796972631510221 / 4398046511104"

definition double_4100_7 :: real where
  "double_4100_7 = 4508767332021043 / 1099511627776"

section \<open>Properties of the leaderboard\<close>

lemma length_withRanks_from: "length (withRanks_from a i r es) = length es"
  by (induction es arbitrary: i r) (simp_all add: Let_def)

lemma rank_with_rank: "ranked.rank (with_rank e r) = r"
  by (simp add: with_rank_def entry.defs ranked.defs)

lemma truncate_with_rank: "entry.truncate (with_rank e r) = entry.truncate e"
  by (simp add: with_rank_def entry.defs ranked.defs)

subsection \<open>withRanks\<close>

lemma withRanks_from_nth:
  "es = drop i a \<Longrightarrow> k < length es \<Longrightarrow>
   ranked.rank (withRanks_from a i r es ! k) =
     (if 0 < i + k \<and> score (a ! (i + k)) \<noteq> score (a ! (i + k - 1)) then i + k + 1
      else if k = 0 then r else ranked.rank (withRanks_from a i r es ! (k - 1)))"
proof (induction es arbitrary: i r k)
  case Nil
  then show ?case by simp
next
  case (Cons e es)
  from Cons.prems(1) have i: "i < length a"
    by (metis drop_all list.distinct(1) not_le)
  with Cons.prems(1) have e: "e = a ! i" and es: "es = drop (Suc i) a"
    by (simp_all add: Cons_nth_drop_Suc [symmetric])
  define r' where "r' = (if i > 0 \<and> score e \<noteq> score (a ! (i - 1)) then i + 1 else r)"
  have unfold: "withRanks_from a i r (e # es) = with_rank e r' # withRanks_from a (Suc i) r' es"
    by (simp add: r'_def Let_def)
  show ?case
  proof (cases k)
    case 0
    then show ?thesis
      unfolding unfold by (simp add: rank_with_rank r'_def e)
  next
    case (Suc k')
    with Cons.prems(2) have k': "k' < length es" by simp
    have IH: "ranked.rank (withRanks_from a (Suc i) r' es ! k') =
      (if 0 < Suc i + k' \<and> score (a ! (Suc i + k')) \<noteq> score (a ! (Suc i + k' - 1))
       then Suc i + k' + 1
       else if k' = 0 then r' else ranked.rank (withRanks_from a (Suc i) r' es ! (k' - 1)))"
      using Cons.IH [OF es k'] .
    show ?thesis
    proof (cases k')
      case 0
      with IH \<open>k = Suc k'\<close> show ?thesis
        unfolding unfold by (simp add: rank_with_rank)
    next
      case (Suc k'')
      with IH \<open>k = Suc k'\<close> show ?thesis
        unfolding unfold by simp
    qed
  qed
qed

lemma withRanks_from_truncate:
  "k < length es \<Longrightarrow> entry.truncate (withRanks_from a i r es ! k) = entry.truncate (es ! k)"
proof (induction es arbitrary: i r k)
  case Nil
  then show ?case by simp
next
  case (Cons e es)
  then show ?case
    by (cases k) (simp_all add: Let_def truncate_with_rank)
qed

text \<open>
  C1. On a non-empty list of entries in ascending score order, \<open>withRanks\<close> keeps the
  entries and their order, gives rank 1 to the first entry, and gives every later
  entry its 1-based position when its score differs from the score just before it,
  and the rank of the entry before it otherwise. On the scores 10, 10, 20, 30 the
  ranks are 1, 1, 3, 4.
\<close>

theorem withRanks_standard_ranking:
  "(docs \<noteq> [] \<and> sorted (map score docs) \<longrightarrow>
      length (withRanks docs) = length docs \<and>
      ranked.rank (withRanks docs ! 0) = 1 \<and>
      (\<forall>i. 0 < i \<and> i < length docs \<longrightarrow>
         ranked.rank (withRanks docs ! i) =
           (if score (docs ! i) \<noteq> score (docs ! (i - 1)) then i + 1
            else ranked.rank (withRanks docs ! (i - 1)))) \<and>
      (\<forall>i < length docs. entry.truncate (withRanks docs ! i) = entry.truncate (docs ! i)))
   \<and> map ranked.rank
        (withRanks (map (\<lambda>s. \<lparr>name = [], score = s, entry.ts = 0\<rparr>) [10, 10, 20, 30]))
      = [1, 1, 3, 4]"
proof -
  have nth: "k < length docs \<Longrightarrow>
      ranked.rank (withRanks docs ! k) =
        (if 0 < k \<and> score (docs ! k) \<noteq> score (docs ! (k - 1)) then k + 1
         else if k = 0 then 1 else ranked.rank (withRanks docs ! (k - 1)))" for k
    using withRanks_from_nth [of docs 0 docs k 1] by (simp add: withRanks_def)
  have first: "docs \<noteq> [] \<Longrightarrow> ranked.rank (withRanks docs ! 0) = 1"
    using nth [of 0] by simp
  have later: "0 < i \<Longrightarrow> i < length docs \<Longrightarrow>
      ranked.rank (withRanks docs ! i) =
        (if score (docs ! i) \<noteq> score (docs ! (i - 1)) then i + 1
         else ranked.rank (withRanks docs ! (i - 1)))" for i
    using nth [of i] by simp
  have same: "i < length docs \<Longrightarrow>
      entry.truncate (withRanks docs ! i) = entry.truncate (docs ! i)" for i
    by (simp add: withRanks_def withRanks_from_truncate)
  have len: "length (withRanks docs) = length docs"
    by (simp add: withRanks_def length_withRanks_from)
  have ex: "map ranked.rank
        (withRanks (map (\<lambda>s. \<lparr>name = [], score = s, entry.ts = 0\<rparr>) [10, 10, 20, 30]))
      = [1, 1, 3, 4]"
    by (simp add: withRanks_def rank_with_rank)
  from first later same len ex show ?thesis by blast
qed

theorem withRanks_standard_ranking_witness:
  "[\<lparr>name = ascii ''ann'', score = 7, entry.ts = 2\<rparr>,
    \<lparr>name = ascii ''bob'', score = 7, entry.ts = 5\<rparr>,
    \<lparr>name = ascii ''cy'', score = 9, entry.ts = 1\<rparr>] \<noteq> []
   \<and> sorted (map score [\<lparr>name = ascii ''ann'', score = 7, entry.ts = 2\<rparr>,
                         \<lparr>name = ascii ''bob'', score = 7, entry.ts = 5\<rparr>,
                         \<lparr>name = ascii ''cy'', score = 9, entry.ts = 1\<rparr>])
   \<and> ranked.rank (withRanks [\<lparr>name = ascii ''ann'', score = 7, entry.ts = 2\<rparr>,
                              \<lparr>name = ascii ''bob'', score = 7, entry.ts = 5\<rparr>,
                              \<lparr>name = ascii ''cy'', score = 9, entry.ts = 1\<rparr>] ! 0) = 1
   \<and> ranked.rank (withRanks [\<lparr>name = ascii ''ann'', score = 7, entry.ts = 2\<rparr>,
                              \<lparr>name = ascii ''bob'', score = 7, entry.ts = 5\<rparr>,
                              \<lparr>name = ascii ''cy'', score = 9, entry.ts = 1\<rparr>] ! 1) = 1
   \<and> ranked.rank (withRanks [\<lparr>name = ascii ''ann'', score = 7, entry.ts = 2\<rparr>,
                              \<lparr>name = ascii ''bob'', score = 7, entry.ts = 5\<rparr>,
                              \<lparr>name = ascii ''cy'', score = 9, entry.ts = 1\<rparr>] ! 2) = 3"
  using withRanks_standard_ranking
     [of "[\<lparr>name = ascii ''ann'', score = 7, entry.ts = 2\<rparr>,
           \<lparr>name = ascii ''bob'', score = 7, entry.ts = 5\<rparr>,
           \<lparr>name = ascii ''cy'', score = 9, entry.ts = 1\<rparr>]"]
  by simp

subsection \<open>The store, peek, submit and getTop\<close>

lemma fst_request: "fst (request st) = fails_next st"
  by (simp add: request_def fails_next_def split: list.splits)

lemma request_cases:
  "request st = (fails_next st, snd (request st))"
  by (simp add: fst_request [symmetric])

lemma collection_request: "collection (snd (request st)) = collection st"
  by (simp add: request_def split: list.splits)

lemma nextId_request: "nextId (snd (request st)) = nextId st"
  by (simp add: request_def split: list.splits)

lemma issued_request: "issued (snd (request st)) = issued st + 1"
  by (simp add: request_def split: list.splits)

lemma window_request: "window (snd (request st)) = window st"
  by (simp add: window_def collection_request)

lemma get_window_eq:
  "get_window st =
     (if fails_next st then (Throw BackendError, snd (request st))
      else (Normal (window st), snd (request st)))"
proof (cases "request st")
  case (Pair f st')
  with fst_request [of st] window_request [of st] have "f = fails_next st" "window st' = window st"
    by simp_all
  with Pair show ?thesis
    by (simp add: get_window_def)
qed

lemma add_doc_eq:
  "add_doc st n s =
     (if fails_next st then (Throw BackendError, snd (request st))
      else (Normal (nextId st),
            (snd (request st))\<lparr>collection := collection st @ [(nextId st, \<lparr>name = n, score = s\<rparr>)],
               nextId := nextId st + 1\<rparr>))"
proof (cases "request st")
  case (Pair f st')
  with fst_request [of st] collection_request [of st] nextId_request [of st]
  have "f = fails_next st" "collection st' = collection st" "nextId st' = nextId st"
    by simp_all
  with Pair show ?thesis
    by (simp add: add_doc_def)
qed

lemma peek_eq:
  "peek st sc =
     (if fails_next st then (Normal None, snd (request st))
      else (Normal (peek_rank (map snd (window st)) sc), snd (request st)))"
  by (simp add: peek_def peek_try_def get_window_eq)

lemma getTop_eq:
  "getTop st n =
     (if fails_next st then (Normal [], snd (request st))
      else (Normal (take n (withRanks (map with_ts (window st)))), snd (request st)))"
  by (simp add: getTop_def getTop_try_def get_window_eq)

lemma submit_eq:
  "submit st n sc =
     (if fails_next st then (Normal None, snd (request st))
      else
        let st1 = snd (add_doc st n sc)
        in if fails_next st1 then (Normal None, snd (request st1))
           else (Normal (submit_rank (nextId st) (map with_ts (window st1)) sc), snd (request st1)))"
  by (simp add: submit_def submit_try_def get_window_eq add_doc_eq Let_def)

lemma SIZE_pos: "0 < SIZE"
  by (simp add: SIZE_def)

lemma length_window: "length (window st) \<le> SIZE"
  by (simp add: window_def)

lemma sorted_window: "sorted (map (\<lambda>d. score (snd d)) (window st))"
  by (simp add: window_def take_map [symmetric])

lemma count_filter: "length (filter P xs) = card {i. i < length xs \<and> P (xs ! i)}"
  by (rule length_filter_conv_card)

lemma score_with_ts: "score (with_ts d) = score (snd d)"
  by (simp add: with_ts_def doc_data.defs entry.defs)

lemma ts_with_ts: "entry.ts (with_ts d) = fst d"
  by (simp add: with_ts_def doc_data.defs entry.defs)

text \<open>
  C2. When the query succeeds, the window has at most \<open>SIZE\<close> = 100 documents in
  ascending score order, and \<open>peek\<close> answers: no rank when the window holds \<open>SIZE\<close>
  documents and the score is strictly greater than the last (worst) score of the
  window; otherwise rank 1 + the number of window positions with a strictly smaller
  score, tied exactly when some window document has the same score. On the empty window
  every score gets rank 1, not tied.
\<close>

theorem peek_preview_rank:
  "\<not> fails_next st \<longrightarrow>
     (let w = window st in
        length w \<le> SIZE \<and> sorted (map (\<lambda>d. score (snd d)) w) \<and>
        fst (peek st sc) =
          Normal (if length w = SIZE \<and> sc > score (snd (last w)) then None
                  else Some \<lparr>rank = 1 + card {i. i < length w \<and> score (snd (w ! i)) < sc},
                             isTied = (\<exists>d \<in> set w. score (snd d) = sc), ts = None\<rparr>) \<and>
        (w = [] \<longrightarrow> fst (peek st sc) = Normal (Some \<lparr>rank = 1, isTied = False, ts = None\<rparr>)))"
proof (intro impI)
  assume ok: "\<not> fails_next st"
  define w where "w = window st"
  have len: "length w \<le> SIZE" by (simp add: w_def length_window)
  have srt: "sorted (map (\<lambda>d. score (snd d)) w)" by (simp add: w_def sorted_window)
  have better: "length (filter (\<lambda>d. score d < sc) (map snd w))
      = card {i. i < length w \<and> score (snd (w ! i)) < sc}"
    by (simp add: filter_map o_def count_filter)
  have tied: "list_ex (\<lambda>d. score d = sc) (map snd w) = (\<exists>d \<in> set w. score (snd d) = sc)"
    by (simp add: list_ex_iff)
  have lst: "w \<noteq> [] \<Longrightarrow> last (map snd w) = snd (last w)"
    by (simp add: last_map)
  have sz: "SIZE \<le> length w \<longleftrightarrow> length w = SIZE" using len by auto
  have nonempty: "length w = SIZE \<Longrightarrow> w \<noteq> []" using SIZE_pos by (cases w) simp_all
  have res: "peek_rank (map snd w) sc =
      (if length w = SIZE \<and> sc > score (snd (last w)) then None
       else Some \<lparr>rank = 1 + card {i. i < length w \<and> score (snd (w ! i)) < sc},
                  isTied = (\<exists>d \<in> set w. score (snd d) = sc), ts = None\<rparr>)"
  proof (cases "length w = SIZE")
    case True
    with nonempty lst have "last (map snd w) = snd (last w)" by blast
    with True show ?thesis
      unfolding peek_rank_def Let_def better tied by simp
  next
    case False
    with sz have "\<not> SIZE \<le> length w" by blast
    with False show ?thesis
      unfolding peek_rank_def Let_def better tied by simp
  qed
  have empty: "w = [] \<Longrightarrow> peek_rank (map snd w) sc = Some \<lparr>rank = 1, isTied = False, ts = None\<rparr>"
    using SIZE_pos by (simp add: peek_rank_def)
  from ok have pk: "fst (peek st sc) = Normal (peek_rank (map snd w) sc)"
    by (simp add: peek_eq w_def)
  have "length w \<le> SIZE \<and> sorted (map (\<lambda>d. score (snd d)) w) \<and>
        fst (peek st sc) =
          Normal (if length w = SIZE \<and> sc > score (snd (last w)) then None
                  else Some \<lparr>rank = 1 + card {i. i < length w \<and> score (snd (w ! i)) < sc},
                             isTied = (\<exists>d \<in> set w. score (snd d) = sc), ts = None\<rparr>) \<and>
        (w = [] \<longrightarrow> fst (peek st sc) = Normal (Some \<lparr>rank = 1, isTied = False, ts = None\<rparr>))"
  proof (intro conjI impI)
    show "length w \<le> SIZE" by (rule len)
    show "sorted (map (\<lambda>d. score (snd d)) w)" by (rule srt)
    show "fst (peek st sc) =
          Normal (if length w = SIZE \<and> sc > score (snd (last w)) then None
                  else Some \<lparr>rank = 1 + card {i. i < length w \<and> score (snd (w ! i)) < sc},
                             isTied = (\<exists>d \<in> set w. score (snd d) = sc), ts = None\<rparr>)"
      unfolding pk by (simp only: res)
    show "fst (peek st sc) = Normal (Some \<lparr>rank = 1, isTied = False, ts = None\<rparr>)" if "w = []"
      unfolding pk using empty [OF that] by simp
  qed
  then show "let w = window st in
        length w \<le> SIZE \<and> sorted (map (\<lambda>d. score (snd d)) w) \<and>
        fst (peek st sc) =
          Normal (if length w = SIZE \<and> sc > score (snd (last w)) then None
                  else Some \<lparr>rank = 1 + card {i. i < length w \<and> score (snd (w ! i)) < sc},
                             isTied = (\<exists>d \<in> set w. score (snd d) = sc), ts = None\<rparr>) \<and>
        (w = [] \<longrightarrow> fst (peek st sc) = Normal (Some \<lparr>rank = 1, isTied = False, ts = None\<rparr>))"
    unfolding Let_def w_def .
qed


lemma collection_add_doc:
  "\<not> fails_next st \<Longrightarrow>
   collection (snd (add_doc st n s)) = collection st @ [(nextId st, \<lparr>name = n, score = s\<rparr>)]"
  by (simp add: add_doc_eq)

text \<open>
  C3. When both requests succeed, \<open>submit\<close> appends the new document to the collection
  and queries the window of the collection after the insert. If the new id is not in
  that window the answer is no rank; otherwise the rank is 1 + the number of window
  positions with a strictly smaller score, and the result is tied exactly when more
  than one window position holds the submitted score.
\<close>

theorem submit_confirmed_rank:
  "\<not> fails_next st \<and> \<not> fails_next (snd (add_doc st n sc)) \<longrightarrow>
     (let ref = nextId st; st1 = snd (add_doc st n sc); w = window st1 in
        collection st1 = collection st @ [(ref, \<lparr>name = n, score = sc\<rparr>)] \<and>
        collection (snd (submit st n sc)) = collection st1 \<and>
        fst (submit st n sc) =
          Normal (if ref \<notin> fst ` set w then None
                  else Some \<lparr>rank = 1 + card {i. i < length w \<and> score (snd (w ! i)) < sc},
                             isTied = (1 < card {i. i < length w \<and> score (snd (w ! i)) = sc}),
                             ts = Some ref\<rparr>))"
proof (intro impI)
  assume ok: "\<not> fails_next st \<and> \<not> fails_next (snd (add_doc st n sc))"
  define st1 where "st1 = snd (add_doc st n sc)"
  define w where "w = window st1"
  from ok have ok1: "\<not> fails_next st" and ok2: "\<not> fails_next st1"
    by (simp_all add: st1_def)
  have ins: "collection st1 = collection st @ [(nextId st, \<lparr>name = n, score = sc\<rparr>)]"
    unfolding st1_def using ok1 by (rule collection_add_doc)
  from ok1 ok2 have sub: "submit st n sc = (Normal (submit_rank (nextId st) (map with_ts w) sc), snd (request st1))"
    by (simp add: submit_eq Let_def st1_def w_def)
  have keep: "collection (snd (submit st n sc)) = collection st1"
    by (simp add: sub collection_request)
  have better: "length (filter (\<lambda>d. score d < sc) (map with_ts w))
      = card {i. i < length w \<and> score (snd (w ! i)) < sc}"
    by (simp add: filter_map o_def count_filter score_with_ts)
  have same: "length (filter (\<lambda>d. score d = sc) (map with_ts w))
      = card {i. i < length w \<and> score (snd (w ! i)) = sc}"
    by (simp add: filter_map o_def count_filter score_with_ts)
  have present: "list_ex (\<lambda>d. entry.ts d = nextId st) (map with_ts w) \<longleftrightarrow> nextId st \<in> fst ` set w"
    by (force simp: list_ex_iff ts_with_ts)
  have res: "submit_rank (nextId st) (map with_ts w) sc =
      (if nextId st \<notin> fst ` set w then None
       else Some \<lparr>rank = 1 + card {i. i < length w \<and> score (snd (w ! i)) < sc},
                  isTied = (1 < card {i. i < length w \<and> score (snd (w ! i)) = sc}),
                  ts = Some (nextId st)\<rparr>)"
    unfolding submit_rank_def Let_def better same present by simp
  have "collection st1 = collection st @ [(nextId st, \<lparr>name = n, score = sc\<rparr>)] \<and>
        collection (snd (submit st n sc)) = collection st1 \<and>
        fst (submit st n sc) =
          Normal (if nextId st \<notin> fst ` set w then None
                  else Some \<lparr>rank = 1 + card {i. i < length w \<and> score (snd (w ! i)) < sc},
                             isTied = (1 < card {i. i < length w \<and> score (snd (w ! i)) = sc}),
                             ts = Some (nextId st)\<rparr>)"
    using ins keep by (simp add: sub res)
  then show "let ref = nextId st; st1 = snd (add_doc st n sc); w = window st1 in
        collection st1 = collection st @ [(ref, \<lparr>name = n, score = sc\<rparr>)] \<and>
        collection (snd (submit st n sc)) = collection st1 \<and>
        fst (submit st n sc) =
          Normal (if ref \<notin> fst ` set w then None
                  else Some \<lparr>rank = 1 + card {i. i < length w \<and> score (snd (w ! i)) < sc},
                             isTied = (1 < card {i. i < length w \<and> score (snd (w ! i)) = sc}),
                             ts = Some ref\<rparr>)"
    unfolding Let_def w_def st1_def .
qed

lemma issued_add_doc: "issued (snd (add_doc st n s)) = issued st + 1"
  by (simp add: add_doc_eq issued_request)

text \<open>
  C9. No leaderboard operation ever completes with an exception. When the first request
  fails, \<open>peek\<close> and \<open>submit\<close> answer \<open>null\<close> and \<open>getTop\<close> answers the empty list, after
  exactly one request and with the collection unchanged; when the insert of \<open>submit\<close>
  succeeds and its query fails, \<open>submit\<close> answers \<open>null\<close> after exactly two requests.
  A failed request is never issued again.
\<close>

theorem store_failure_absorbed:
  "(\<exists>r. fst (peek st sc) = Normal r) \<and>
   (\<exists>r. fst (submit st n sc) = Normal r) \<and>
   (\<exists>r. fst (getTop st k) = Normal r) \<and>
   (fails_next st \<longrightarrow>
      fst (peek st sc) = Normal None \<and> issued (snd (peek st sc)) = issued st + 1 \<and>
      fst (getTop st k) = Normal [] \<and> issued (snd (getTop st k)) = issued st + 1 \<and>
      fst (submit st n sc) = Normal None \<and> issued (snd (submit st n sc)) = issued st + 1 \<and>
      collection (snd (submit st n sc)) = collection st) \<and>
   (\<not> fails_next st \<and> fails_next (snd (add_doc st n sc)) \<longrightarrow>
      fst (submit st n sc) = Normal None \<and> issued (snd (submit st n sc)) = issued st + 2)"
proof (intro conjI impI)
  show "\<exists>r. fst (peek st sc) = Normal r" by (simp add: peek_eq)
  show "\<exists>r. fst (submit st n sc) = Normal r" by (simp add: submit_eq Let_def)
  show "\<exists>r. fst (getTop st k) = Normal r" by (simp add: getTop_eq)
next
  assume f: "fails_next st"
  then show "fst (peek st sc) = Normal None" by (simp add: peek_eq)
  from f show "issued (snd (peek st sc)) = issued st + 1" by (simp add: peek_eq issued_request)
  from f show "fst (getTop st k) = Normal []" by (simp add: getTop_eq)
  from f show "issued (snd (getTop st k)) = issued st + 1" by (simp add: getTop_eq issued_request)
  from f show "fst (submit st n sc) = Normal None" by (simp add: submit_eq)
  from f show "issued (snd (submit st n sc)) = issued st + 1" by (simp add: submit_eq issued_request)
  from f show "collection (snd (submit st n sc)) = collection st"
    by (simp add: submit_eq collection_request)
next
  assume f: "\<not> fails_next st \<and> fails_next (snd (add_doc st n sc))"
  then show "fst (submit st n sc) = Normal None" by (simp add: submit_eq Let_def)
  from f show "issued (snd (submit st n sc)) = issued st + 2"
    by (simp add: submit_eq Let_def issued_request issued_add_doc)
qed

lemmas store_eval = example_store_def window_def SIZE_def fails_next_def peek_def peek_try_def
  get_window_def request_def peek_rank_def submit_def submit_try_def add_doc_def submit_rank_def
  getTop_def getTop_try_def with_ts_def ascii_def doc_data.defs entry.defs Let_def

theorem peek_preview_rank_witness:
  "\<not> fails_next example_store \<and>
   fst (peek example_store 100) = Normal (Some \<lparr>rank = 1, isTied = True, ts = None\<rparr>) \<and>
   fst (peek example_store 120) = Normal (Some \<lparr>rank = 3, isTied = False, ts = None\<rparr>) \<and>
   \<not> fails_next (example_store\<lparr>collection := []\<rparr>) \<and>
   window (example_store\<lparr>collection := []\<rparr>) = [] \<and>
   fst (peek (example_store\<lparr>collection := []\<rparr>) 250)
     = Normal (Some \<lparr>rank = 1, isTied = False, ts = None\<rparr>)"
  using peek_preview_rank [of example_store 100] peek_preview_rank [of example_store 120]
    peek_preview_rank [of "example_store\<lparr>collection := []\<rparr>" 250]
  by (simp add: store_eval)

theorem submit_confirmed_rank_witness:
  "\<not> fails_next example_store \<and> \<not> fails_next (snd (add_doc example_store (ascii ''dee'') 100)) \<and>
   fst (submit example_store (ascii ''dee'') 100) = Normal (Some \<lparr>rank = 1, isTied = True, ts = Some 3\<rparr>)"
  using submit_confirmed_rank [of example_store "ascii ''dee''" 100]
  by (simp add: store_eval)

theorem store_failure_absorbed_witness:
  "fails_next (example_store\<lparr>faults := [True]\<rparr>) \<and>
   fst (peek (example_store\<lparr>faults := [True]\<rparr>) 120) = Normal None \<and>
   fst (getTop (example_store\<lparr>faults := [True]\<rparr>) 10) = Normal [] \<and>
   fst (submit (example_store\<lparr>faults := [True]\<rparr>) (ascii ''dee'') 120) = Normal None \<and>
   \<not> fails_next (example_store\<lparr>faults := [False, True]\<rparr>) \<and>
   fails_next (snd (add_doc (example_store\<lparr>faults := [False, True]\<rparr>) (ascii ''dee'') 100)) \<and>
   fst (submit (example_store\<lparr>faults := [False, True]\<rparr>) (ascii ''dee'') 100) = Normal None \<and>
   issued (snd (submit (example_store\<lparr>faults := [False, True]\<rparr>) (ascii ''dee'') 100)) = 2"
  using store_failure_absorbed [of "example_store\<lparr>faults := [True]\<rparr>" 120 "ascii ''dee''" 10]
    store_failure_absorbed [of "example_store\<lparr>faults := [False, True]\<rparr>" 100 "ascii ''dee''" 10]
  by (simp add: store_eval)

text \<open>
  Run without anything in between, the phases of an operation are the operation.
\<close>

lemma peek_phases:
  "peek st sc = (Normal (peek_done (fst (get_window st)) sc), snd (get_window st))"
  by (simp add: peek_eq peek_done_def get_window_eq)

lemma getTop_phases:
  "getTop st n = (Normal (getTop_done (fst (get_window st)) n), snd (get_window st))"
  by (simp add: getTop_eq getTop_done_def get_window_eq)

lemma submit_phases:
  "submit st n sc =
     (case add_doc st n sc of
        (Throw x, st') \<Rightarrow> (Normal None, st')
      | (Normal ref, st') \<Rightarrow>
          (Normal (submit_done ref (fst (get_window st')) sc), snd (get_window st')))"
  by (simp add: submit_eq submit_done_def get_window_eq add_doc_eq Let_def)

section \<open>Properties of the double arithmetic\<close>

lemma round_even_near: "\<bar>real_of_int (round_even y) - y\<bar> \<le> 1 / 2"
  unfolding round_even_def Let_def by (auto; linarith)

lemma Math_round_near: "\<bar>real_of_int (Math_round x) - x\<bar> \<le> 1 / 2"
  unfolding Math_round_def by linarith

lemma ulp_pos: "0 < ulp x"
  by (simp add: ulp_def)

lemma to_double_near: "\<bar>to_double x - x\<bar> \<le> ulp x / 2"
proof (cases "x = 0")
  case True
  then show ?thesis using ulp_pos [of x] by (simp add: to_double_def)
next
  case False
  have "\<bar>real_of_int (round_even (x / ulp x)) - x / ulp x\<bar> \<le> 1 / 2"
    by (rule round_even_near)
  then have "\<bar>real_of_int (round_even (x / ulp x)) - x / ulp x\<bar> * ulp x \<le> 1 / 2 * ulp x"
    using ulp_pos [of x] by (intro mult_right_mono) simp_all
  moreover have "\<bar>real_of_int (round_even (x / ulp x)) - x / ulp x\<bar> * ulp x
      = \<bar>real_of_int (round_even (x / ulp x)) * ulp x - x\<bar>"
  proof -
    have "(real_of_int (round_even (x / ulp x)) - x / ulp x) * ulp x
        = real_of_int (round_even (x / ulp x)) * ulp x - x"
      using ulp_pos [of x] by (simp add: left_diff_distrib)
    then show ?thesis
      using ulp_pos [of x] abs_mult_pos [of "ulp x" "real_of_int (round_even (x / ulp x)) - x / ulp x"]
      by simp
  qed
  ultimately show ?thesis using False by (simp add: to_double_def)
qed

lemma ilog2_le: "n < 2 ^ Suc k \<Longrightarrow> ilog2 n \<le> k"
proof (induction k arbitrary: n)
  case 0
  then show ?case by (simp add: ilog2.simps)
next
  case (Suc k)
  show ?case
  proof (cases "n < 2")
    case True
    then show ?thesis by (simp add: ilog2.simps)
  next
    case False
    from Suc.prems have "n div 2 < 2 ^ Suc k" by simp
    then have "ilog2 (n div 2) \<le> k" by (rule Suc.IH)
    with False show ?thesis by (subst ilog2.simps) simp
  qed
qed

lemma exponent_le: "0 < a \<Longrightarrow> a < 2 ^ Suc k \<Longrightarrow> exponent a \<le> int k"
proof (cases "1 \<le> a")
  case True
  assume "a < 2 ^ Suc k"
  then have "\<lfloor>a\<rfloor> < 2 ^ Suc k" by (simp add: floor_less_iff)
  then have "nat \<lfloor>a\<rfloor> < 2 ^ Suc k" using True by (simp add: nat_less_iff)
  then have "ilog2 (nat \<lfloor>a\<rfloor>) \<le> k" by (rule ilog2_le)
  with True show ?thesis by (simp add: exponent_def)
next
  case False
  then show ?thesis by (simp add: exponent_def)
qed

lemma ulp_le: "x \<noteq> 0 \<Longrightarrow> \<bar>x\<bar> < 2 ^ Suc k \<Longrightarrow> ulp x \<le> 2 powi (int k - 52)"
proof -
  assume "x \<noteq> 0" "\<bar>x\<bar> < 2 ^ Suc k"
  then have "exponent \<bar>x\<bar> \<le> int k" by (intro exponent_le) simp_all
  then have "max (exponent \<bar>x\<bar>) (- 1022) - 52 \<le> int k - 52" by simp
  then show ?thesis unfolding ulp_def by (intro power_int_increasing) simp_all
qed

lemma double_minus_near:
  "\<bar>a - b\<bar> < 2 ^ 31 \<Longrightarrow> \<bar>double_minus a b - (a - b)\<bar> \<le> 1 / 2 ^ 23"
proof (cases "a - b = 0")
  case True
  then show ?thesis by (simp add: double_minus_def to_double_def)
next
  case False
  assume "\<bar>a - b\<bar> < 2 ^ 31"
  with False have "ulp (a - b) \<le> 2 powi (int 30 - 52)"
    by (intro ulp_le) simp_all
  then have "ulp (a - b) \<le> 1 / 2 ^ 22" by (simp add: power_int_def power_one_over)
  with to_double_near [of "a - b"] show ?thesis by (simp add: double_minus_def)
qed

lemmas double_eval = double_minus_def to_double_def ulp_def exponent_def round_even_def
  ilog2.simps power_int_def power_one_over


lemma ilog2_bounds: "0 < n \<Longrightarrow> 2 ^ ilog2 n \<le> n \<and> n < 2 ^ Suc (ilog2 n)"
proof (induction n rule: ilog2.induct)
  case (1 n)
  show ?case
  proof (cases "n < 2")
    case True
    with "1.prems" have "n = 1" by simp
    then show ?thesis by (simp add: ilog2.simps)
  next
    case False
    then have "0 < n div 2" by simp
    with "1.IH" False have IH: "2 ^ ilog2 (n div 2) \<le> n div 2" "n div 2 < 2 ^ Suc (ilog2 (n div 2))"
      by simp_all
    have eq: "ilog2 n = Suc (ilog2 (n div 2))" using False by (subst ilog2.simps) simp
    from IH(1) have "2 * 2 ^ ilog2 (n div 2) \<le> n" by linarith
    moreover from IH(2) have "n < 2 * 2 ^ Suc (ilog2 (n div 2))" by linarith
    ultimately show ?thesis by (simp add: eq)
  qed
qed

lemma ilog2_bounds_real:
  assumes "0 < n"
  shows "(2::real) ^ ilog2 n \<le> real n" and "real n + 1 \<le> 2 ^ Suc (ilog2 n)"
proof -
  from ilog2_bounds [OF assms] have "2 ^ ilog2 n \<le> n" and "Suc n \<le> 2 ^ Suc (ilog2 n)"
    by simp_all
  then have "real (2 ^ ilog2 n) \<le> real n" and "real (Suc n) \<le> real (2 ^ Suc (ilog2 n))"
    by (simp_all only: of_nat_le_iff)
  then show "(2::real) ^ ilog2 n \<le> real n" and "real n + 1 \<le> 2 ^ Suc (ilog2 n)"
    by simp_all
qed

lemma exponent_bounds:
  assumes "0 < a"
  shows "2 powi exponent a \<le> a \<and> a < 2 powi (exponent a + 1)"
proof (cases "1 \<le> a")
  case True
  define n where "n = nat \<lfloor>a\<rfloor>"
  from True have n: "0 < n" "real n \<le> a" "a < real n + 1"
    by (simp_all add: n_def)
  from ilog2_bounds_real [OF n(1)] n have "2 ^ ilog2 n \<le> a" "a < 2 ^ Suc (ilog2 n)"
    by linarith+
  moreover have "exponent a = int (ilog2 n)" using True by (simp add: exponent_def n_def)
  ultimately show ?thesis by (simp add: power_int_def nat_add_distrib)
next
  case False
  define m where "m = nat \<lceil>1 / a\<rceil>"
  define j where "j = ilog2 (m - 1)"
  from False assms have y: "1 < 1 / a" by simp
  then have m: "2 \<le> m" "1 / a \<le> real m" "real m - 1 < 1 / a"
    by (simp_all add: m_def) linarith+
  then have pos: "0 < m - 1" by simp
  have cast: "real (m - 1) = real m - 1" using m(1) by simp
  from ilog2_bounds_real [OF pos] have "2 ^ j \<le> real m - 1" "real m \<le> 2 ^ Suc j"
    unfolding j_def cast by linarith+
  with m have lo: "1 / a \<le> 2 ^ Suc j" and hi: "2 ^ j < 1 / a" by linarith+
  from lo assms have "1 / 2 ^ Suc j \<le> a" by (simp add: field_simps)
  moreover from hi assms have "a < 1 / 2 ^ j" by (simp add: field_simps)
  moreover have e: "exponent a = - int (Suc j)"
    using False by (simp add: exponent_def m_def j_def)
  moreover have "(2::real) powi (- int (Suc j)) = 1 / 2 ^ Suc j"
    by (simp only: power_int_minus power_int_of_nat inverse_eq_divide)
  moreover have "- int (Suc j) + 1 = - int j" by simp
  then have "(2::real) powi (- int (Suc j) + 1) = 1 / 2 ^ j"
    by (simp only: power_int_minus power_int_of_nat inverse_eq_divide)
  ultimately show ?thesis by (simp only:)
qed

section \<open>Properties of the game\<close>

subsection \<open>Timers and the invariant\<close>

lemma clearAllTimers_eq:
  "clearAllTimers g =
     g\<lparr>timers := filter (\<lambda>t. Some (fst t) \<noteq> waitTimer g \<and> Some (fst t) \<noteq> fakeTimer g \<and>
                             Some (fst t) \<noteq> fakeRevert g \<and> Some (fst t) \<noteq> pauseTimer g) (timers g),
       waitTimer := None, fakeTimer := None, fakeRevert := None, pauseTimer := None\<rparr>"
  by (cases "waitTimer g"; cases "fakeTimer g"; cases "fakeRevert g"; cases "pauseTimer g")
     (auto simp: clearAllTimers_def clearTimeout_def Let_def intro!: filter_cong)

lemma clearAllTimers_tracked:
  "tracked g \<Longrightarrow>
   clearAllTimers g =
     g\<lparr>timers := [], waitTimer := None, fakeTimer := None, fakeRevert := None, pauseTimer := None\<rparr>"
proof -
  assume t: "tracked g"
  have "filter (\<lambda>t. Some (fst t) \<noteq> waitTimer g \<and> Some (fst t) \<noteq> fakeTimer g \<and>
                  Some (fst t) \<noteq> fakeRevert g \<and> Some (fst t) \<noteq> pauseTimer g) (timers g) = []"
    using t unfolding tracked_def filter_empty_conv by metis
  then show ?thesis by (simp add: clearAllTimers_eq)
qed


lemma tracked_cong:
  "timers g' = timers g \<Longrightarrow> waitTimer g' = waitTimer g \<Longrightarrow> fakeTimer g' = fakeTimer g \<Longrightarrow>
   fakeRevert g' = fakeRevert g \<Longrightarrow> pauseTimer g' = pauseTimer g \<Longrightarrow> tracked g' = tracked g"
  by (simp add: tracked_def)

lemma beginRound_tracked:
  "tracked g \<Longrightarrow>
   beginRound e g =
     g\<lparr>roundNum := roundNum g + 1, state := Waiting,
       fromColor := Some (fst (pair e)), toColor := Some (snd (pair e)),
       bg := Some (fst (pair e)), msg := Prompt,
       timers := [(nextTimer g,
                   if coin e < FAKE_CHANCE then FakeFire else RealChange,
                   if coin e < FAKE_CHANCE then rand e FAKE_MIN_DELAY FAKE_MAX_DELAY
                   else rand e MIN_DELAY MAX_DELAY)],
       nextTimer := nextTimer g + 1,
       waitTimer := if coin e < FAKE_CHANCE then None else Some (nextTimer g),
       fakeTimer := if coin e < FAKE_CHANCE then Some (nextTimer g) else None,
       fakeRevert := None, pauseTimer := None\<rparr>"
  by (simp add: beginRound_def clearAllTimers_tracked setState_def setBg_def setMsg_def
        setTimeout_def pickColorPair_def Let_def split: prod.splits)

lemma tooEarly_tracked:
  "tracked g \<Longrightarrow>
   tooEarly g =
     g\<lparr>state := Paused, bg := Some 0x3d0000, msg := TooEarly,
       timers := [(nextTimer g, RetryRound, TOO_EARLY_PAUSE)], nextTimer := nextTimer g + 1,
       waitTimer := None, fakeTimer := None, fakeRevert := None,
       pauseTimer := Some (nextTimer g)\<rparr>"
  by (simp add: tooEarly_def clearAllTimers_tracked setState_def setBg_def setMsg_def
        setTimeout_def Let_def)

lemma recordScore_tracked:
  "tracked g \<Longrightarrow> length (scores g) < ROUNDS \<Longrightarrow>
   recordScore ms g =
     g\<lparr>state := Paused, scores := scores g @ [ms], msg := ScoreMs ms,
       timers := [(nextTimer g, AfterScore, RESULT_PAUSE)], nextTimer := nextTimer g + 1,
       waitTimer := None, fakeTimer := None, fakeRevert := None,
       pauseTimer := Some (nextTimer g)\<rparr>"
  by (simp add: recordScore_def clearAllTimers_tracked setState_def setMsg_def
        setTimeout_def Let_def)

lemma goToIntro_tracked:
  "tracked g \<Longrightarrow>
   goToIntro g =
     g\<lparr>state := Idle, shown := IntroScreen, timers := [],
       waitTimer := None, fakeTimer := None, fakeRevert := None, pauseTimer := None\<rparr>"
  by (simp add: goToIntro_def clearAllTimers_tracked setState_def showScreen_def Let_def)

lemmas inv_defs = round_inv_def tracked_def alone_def pending_def in_round_def

lemma inv_beginRound:
  "tracked g \<Longrightarrow> (state g = Ready \<longrightarrow> changeAt g \<noteq> None) \<Longrightarrow>
   length (scores g) < ROUNDS \<Longrightarrow> roundNum g = int (length (scores g)) \<Longrightarrow>
   round_inv (beginRound e g)"
  by (simp add: beginRound_tracked) (simp add: inv_defs)

lemma inv_init: "round_inv (init_game best nm)"
  by (simp add: inv_defs init_game_def)

lemma inv_startGame: "round_inv g \<Longrightarrow> round_inv (startGame e g)"
proof -
  assume i: "round_inv g"
  then have "tracked (showScreen GameScreen (g\<lparr>roundNum := 0, scores := []\<rparr>))"
    by (simp add: round_inv_def showScreen_def tracked_def)
  then show ?thesis
    unfolding startGame_def Let_def
    by (rule inv_beginRound) (use i in \<open>simp_all add: showScreen_def ROUNDS_def round_inv_def\<close>)
qed

lemma inv_tooEarly: "round_inv g \<Longrightarrow> state g = Waiting \<Longrightarrow> round_inv (tooEarly g)"
  by (simp add: round_inv_def tooEarly_tracked) (simp add: inv_defs)

lemma inv_recordScore: "round_inv g \<Longrightarrow> state g = Ready \<Longrightarrow> round_inv (recordScore ms g)"
  by (simp add: round_inv_def in_round_def recordScore_tracked) (simp add: inv_defs)

lemma inv_onGameClick: "round_inv g \<Longrightarrow> round_inv (onGameClick e g)"
  by (simp add: onGameClick_def inv_tooEarly inv_recordScore Let_def)

lemma inv_goToIntro: "round_inv g \<Longrightarrow> round_inv (goToIntro g)"
  by (simp add: round_inv_def goToIntro_tracked) (simp add: inv_defs)


lemma find_SomeD: "find P xs = Some x \<Longrightarrow> x \<in> set xs \<and> P x"
  by (induction xs) (auto split: if_splits)

lemma alone_single:
  "alone cb g \<Longrightarrow> (h, cb, d) \<in> set (timers g) \<Longrightarrow> timers g = [(h, cb, d)]"
proof -
  assume a: "alone cb g" and m: "(h, cb, d) \<in> set (timers g)"
  then have "length (timers g) = 1" by (force simp: alone_def pending_def)
  then obtain x where x: "timers g = [x]"
    by (cases "timers g") simp_all
  with m show ?thesis by simp
qed

lemma inv_filter:
  assumes "round_inv g"
  shows "round_inv (g\<lparr>timers := filter P (timers g)\<rparr>)"
proof -
  have sub: "pending cb (g\<lparr>timers := filter P (timers g)\<rparr>) \<Longrightarrow> pending cb g" for cb
    by (force simp: pending_def)
  have keep: "alone cb g \<Longrightarrow> alone cb (g\<lparr>timers := filter P (timers g)\<rparr>)" for cb
  proof -
    assume a: "alone cb g"
    show "alone cb (g\<lparr>timers := filter P (timers g)\<rparr>)"
      unfolding alone_def
    proof
      assume p: "pending cb (g\<lparr>timers := filter P (timers g)\<rparr>)"
      then obtain t where "t \<in> set (filter P (timers g))" and "fst (snd t) = cb"
        by (auto simp: pending_def)
      then have tin: "t \<in> set (timers g)" and tP: "P t" and tcb: "fst (snd t) = cb"
        by simp_all
      obtain h c d where teq: "t = (h, c, d)" by (rule prod_cases3)
      with tin tP tcb have mem: "(h, cb, d) \<in> set (timers g)" and P: "P (h, cb, d)"
        by simp_all
      from a mem have "timers g = [(h, cb, d)]" by (rule alone_single)
      with P show "length (timers (g\<lparr>timers := filter P (timers g)\<rparr>)) = 1" by simp
    qed
  qed
  have tr: "tracked g \<Longrightarrow> tracked (g\<lparr>timers := filter P (timers g)\<rparr>)"
    by (simp add: tracked_def)
  from assms show ?thesis
    unfolding round_inv_def using sub keep tr by (auto simp: in_round_def)
qed

lemma showResults_fields:
  "state (fst (showResults (g, st))) = state g"
  "timers (fst (showResults (g, st))) = timers g"
  "waitTimer (fst (showResults (g, st))) = waitTimer g"
  "fakeTimer (fst (showResults (g, st))) = fakeTimer g"
  "fakeRevert (fst (showResults (g, st))) = fakeRevert g"
  "pauseTimer (fst (showResults (g, st))) = pauseTimer g"
  "changeAt (fst (showResults (g, st))) = changeAt g"
  "scores (fst (showResults (g, st))) = scores g"
  "roundNum (fst (showResults (g, st))) = roundNum g"
  "shown (fst (showResults (g, st))) = ResultsScreen"
  "avg (fst (showResults (g, st))) = average (scores g)"
  "submitted (fst (showResults (g, st))) = False"
  by (simp_all add: showResults_def showScreen_def Let_def split: option.splits prod.splits)

lemma inv_showResults: "round_inv g \<Longrightarrow> round_inv (fst (showResults (g, st)))"
  by (simp add: inv_defs showResults_fields)

lemma run_callback_snd:
  "cb \<noteq> AfterScore \<Longrightarrow> snd (run_callback cb e (g, st)) = st"
  by (cases cb) (simp_all add: run_callback_def Let_def split: option.splits prod.splits)

lemma inv_FakeFire:
  assumes "round_inv g" and "timers g = []"
  shows "round_inv (fst (run_callback FakeFire e (g, st)))"
  using assms
  by (auto simp: run_callback_def triggerFake_def setBg_def setTimeout_def Let_def inv_defs
           split: option.splits)

lemma inv_RealChange:
  assumes "round_inv g"
  shows "round_inv (fst (run_callback RealChange e (g, st)))"
  using assms
  by (auto simp: run_callback_def triggerChange_def setBg_def setState_def setMsg_def Let_def inv_defs)

lemma inv_FakeRevert:
  assumes "round_inv g"
  shows "round_inv (fst (run_callback FakeRevert e (g, st)))"
  using assms
  by (auto simp: run_callback_def setBg_def inv_defs)

lemma inv_fire:
  assumes i: "round_inv g"
  shows "round_inv (fst (fire h e (g, st)))"
proof (cases "find (\<lambda>t. fst t = h) (timers g)")
  case None
  with i show ?thesis by (simp add: fire_def)
next
  case (Some t)
  obtain h' cb d where t: "t = (h', cb, d)" by (rule prod_cases3)
  with Some find_SomeD [of "\<lambda>t. fst t = h" "timers g" t]
  have mem: "(h, cb, d) \<in> set (timers g)" by auto
  define g1 where "g1 = g\<lparr>timers := filter (\<lambda>t. fst t \<noteq> h) (timers g)\<rparr>"
  have i1: "round_inv g1" unfolding g1_def using i by (rule inv_filter)
  have f: "fire h e (g, st) = run_callback cb e (g1, st)"
    by (simp add: fire_def Some t g1_def)
  have empty: "alone cb g \<Longrightarrow> timers g1 = []"
    using alone_single [OF _ mem] by (simp add: g1_def)
  have pend: "pending cb g" using mem by (force simp: pending_def)
  show ?thesis
  proof (cases cb)
    case FakeFire
    with i have "alone cb g" by (simp add: round_inv_def)
    with empty i1 FakeFire show ?thesis by (simp add: f inv_FakeFire)
  next
    case RealChange
    with i1 show ?thesis by (simp add: f inv_RealChange)
  next
    case FakeRevert
    with i1 show ?thesis by (simp add: f inv_FakeRevert)
  next
    case RetryRound
    with i pend have sc: "length (scores g) < ROUNDS" "roundNum g = int (length (scores g)) + 1"
      by (simp_all add: round_inv_def)
    have "round_inv (beginRound e (g1\<lparr>roundNum := roundNum g1 - 1\<rparr>))"
      by (rule inv_beginRound) (use i1 sc in \<open>simp_all add: round_inv_def tracked_def g1_def\<close>)
    with RetryRound show ?thesis by (simp add: f run_callback_def)
  next
    case AfterScore
    with i pend have rn: "roundNum g = int (length (scores g))"
      by (simp add: round_inv_def)
    show ?thesis
    proof (cases "ROUNDS \<le> length (scores g)")
      case True
      with AfterScore i1 show ?thesis
        by (simp add: f run_callback_def g1_def inv_showResults)
    next
      case False
      have "round_inv (beginRound e g1)"
        by (rule inv_beginRound) (use i1 rn False in \<open>simp_all add: round_inv_def g1_def\<close>)
      with AfterScore False show ?thesis by (simp add: f run_callback_def g1_def)
    qed
  qed
qed

lemma submitToLeaderboard_frame:
  "\<exists>a b c k. fst (submitToLeaderboard (g, st)) =
      g\<lparr>submitted := a, db_name := b, saveDisabled := c, awaiting := k\<rparr>"
proof -
  have base: "g = g\<lparr>submitted := submitted g, db_name := db_name g,
      saveDisabled := saveDisabled g, awaiting := awaiting g\<rparr>"
    by simp
  show ?thesis
  proof (cases "submitted g \<or> trim (playerName g) = []")
    case True
    then have "fst (submitToLeaderboard (g, st)) = g"
      by (auto simp: submitToLeaderboard_def Let_def)
    with base show ?thesis by metis
  next
    case False
    show ?thesis
    proof (cases "avg g")
      case None
      with False have "fst (submitToLeaderboard (g, st)) =
          g\<lparr>submitted := True, db_name := Some (trim (playerName g)), saveDisabled := True,
            awaiting := awaiting g\<rparr>"
        by (simp add: submitToLeaderboard_def Let_def)
      then show ?thesis by blast
    next
      case (Some sc)
      with False have "fst (submitToLeaderboard (g, st)) =
          g\<lparr>submitted := True, db_name := Some (trim (playerName g)), saveDisabled := True,
            awaiting := awaiting g @
              [SubmitCont (trim (playerName g)) sc (fst (add_doc st (trim (playerName g)) sc))]\<rparr>"
        by (simp add: submitToLeaderboard_def Let_def split: prod.splits)
      then show ?thesis by blast
    qed
  qed
qed

lemma inv_submitToLeaderboard: "round_inv g \<Longrightarrow> round_inv (fst (submitToLeaderboard (g, st)))"
proof -
  assume i: "round_inv g"
  from submitToLeaderboard_frame [of g st] obtain a b c k where
    "fst (submitToLeaderboard (g, st)) =
      g\<lparr>submitted := a, db_name := b, saveDisabled := c, awaiting := k\<rparr>"
    by blast
  with i show ?thesis by (simp add: inv_defs)
qed

lemma resume_frame:
  "\<exists>a b c d k'. fst (resume k (g, st)) =
      g\<lparr>myRankResult := a, myTs := b, rankDisplay := c, board := d, awaiting := k'\<rparr>"
proof -
  have rb: "\<exists>d. renderBoard ts0 es g0 = g0\<lparr>board := d\<rparr>" for ts0 es g0
    by (simp add: renderBoard_def Let_def) blast
  have ur: "\<exists>c. updateRankDisplay r b g0 = g0\<lparr>rankDisplay := c\<rparr>" for r b g0
    by (simp add: updateRankDisplay_def split: option.splits) blast
  have as: "\<exists>a b c d k'. fst (afterSubmit res (g, st)) =
      g\<lparr>myRankResult := a, myTs := b, rankDisplay := c, board := d, awaiting := k'\<rparr>" for res
  proof -
    define g1 where "g1 = (case res of None \<Rightarrow> g\<lparr>myRankResult := res\<rparr>
        | Some r \<Rightarrow> g\<lparr>myRankResult := res, myTs := rank_result.ts r\<rparr>)"
    have "\<exists>b. g1 = g\<lparr>myRankResult := res, myTs := b\<rparr>"
    proof (cases res)
      case None
      then show ?thesis unfolding g1_def by (intro exI [of _ "myTs g"]) simp
    next
      case (Some r)
      then show ?thesis unfolding g1_def by (intro exI [of _ "rank_result.ts r"]) simp
    qed
    then obtain b where b: "g1 = g\<lparr>myRankResult := res, myTs := b\<rparr>" by blast
    from ur [of res True g1] obtain c where c: "updateRankDisplay res True g1 = g1\<lparr>rankDisplay := c\<rparr>"
      by blast
    have "fst (afterSubmit res (g, st)) =
        (updateRankDisplay res True g1)\<lparr>awaiting := awaiting (updateRankDisplay res True g1) @
           [RenderCont (myTs (updateRankDisplay res True g1)) (fst (get_window st))]\<rparr>"
      by (cases res)
         (simp_all add: afterSubmit_def renderLeaderboard_def Let_def g1_def split: prod.splits)
    also have "\<dots> = g\<lparr>myRankResult := res, myTs := b, rankDisplay := c, board := board g,
        awaiting := awaiting g @ [RenderCont b (fst (get_window st))]\<rparr>"
      unfolding c by (simp add: b)
    finally show ?thesis by blast
  qed
  show ?thesis
  proof (cases k)
    case (ResultsCont sc pk tp)
    from rb [of None "getTop_done tp 10" g] obtain d
      where d: "renderBoard None (getTop_done tp 10) g = g\<lparr>board := d\<rparr>" by blast
    from ur [of "peek_done pk sc" False "g\<lparr>board := d\<rparr>"] obtain c
      where c: "updateRankDisplay (peek_done pk sc) False (g\<lparr>board := d\<rparr>)
        = g\<lparr>board := d, rankDisplay := c\<rparr>" by blast
    have "fst (resume k (g, st)) = g\<lparr>myRankResult := myRankResult g, myTs := myTs g,
        rankDisplay := c, board := d, awaiting := awaiting g\<rparr>"
      using ResultsCont by (simp add: resume_def d c)
    then show ?thesis by blast
  next
    case (SubmitCont n sc added)
    show ?thesis
    proof (cases added)
      case (Throw x)
      with SubmitCont as [of None] show ?thesis by (simp add: resume_def)
    next
      case (Normal ref)
      with SubmitCont have "fst (resume k (g, st)) = g\<lparr>myRankResult := myRankResult g,
          myTs := myTs g, rankDisplay := rankDisplay g, board := board g,
          awaiting := awaiting g @ [QueryCont sc ref (fst (get_window st))]\<rparr>"
        by (simp add: resume_def split: prod.splits)
      then show ?thesis by blast
    qed
  next
    case (QueryCont sc ref answer)
    with as [of "submit_done ref answer sc"] show ?thesis by (simp add: resume_def)
  next
    case (RenderCont ts0 tp)
    from rb [of ts0 "getTop_done tp 10" g] obtain d
      where "renderBoard ts0 (getTop_done tp 10) g = g\<lparr>board := d\<rparr>" by blast
    with RenderCont have "fst (resume k (g, st)) = g\<lparr>myRankResult := myRankResult g,
        myTs := myTs g, rankDisplay := rankDisplay g, board := d, awaiting := awaiting g\<rparr>"
      by (simp add: resume_def)
    then show ?thesis by blast
  qed
qed

lemma inv_awaiting: "round_inv (g\<lparr>awaiting := k\<rparr>) = round_inv g"
  by (simp add: inv_defs)

lemma inv_resume: "round_inv g \<Longrightarrow> round_inv (fst (resume k (g, st)))"
proof -
  assume i: "round_inv g"
  from resume_frame [of k g st] obtain a b c d k' where
    "fst (resume k (g, st)) =
      g\<lparr>myRankResult := a, myTs := b, rankDisplay := c, board := d, awaiting := k'\<rparr>"
    by blast
  with i show ?thesis by (simp add: inv_defs)
qed

lemma inv_step: "round_inv g \<Longrightarrow> round_inv (fst (step ev e (g, st)))"
proof (cases ev)
  case (Resume i)
  assume "round_inv g"
  then have "round_inv (g\<lparr>awaiting := take i (awaiting g) @ drop (Suc i) (awaiting g)\<rparr>)"
    by (simp add: inv_awaiting)
  then have "round_inv (fst (resume (awaiting g ! i)
      (g\<lparr>awaiting := take i (awaiting g) @ drop (Suc i) (awaiting g)\<rparr>, st)))"
    by (rule inv_resume)
  with \<open>round_inv g\<close> Resume show ?thesis by (simp add: step_def)
next
  case (NameInput s)
  assume "round_inv g"
  with NameInput show ?thesis by (simp add: step_def inv_defs)
qed (simp_all add: step_def inv_startGame inv_onGameClick inv_fire inv_goToIntro
       inv_submitToLeaderboard)

lemma reachable_inv: "reachable w \<Longrightarrow> round_inv (fst w)"
proof (induction rule: reachable.induct)
  case (reach_init best nm st)
  show ?case by (simp add: inv_init)
next
  case (reach_step w ev e)
  then show ?case using inv_step [of "fst w" ev e "snd w"] by simp
next
  case (reach_store g st st')
  then show ?case by simp
qed

lemma reachable_run: "reachable w \<Longrightarrow> reachable (run es w)"
proof (induction es arbitrary: w)
  case Nil
  then show ?case by simp
next
  case (Cons p es)
  obtain ev e where p: "p = (ev, e)" by (cases p)
  from Cons.prems have "reachable (step ev e w)" by (rule reach_step)
  then have "reachable (run es (step ev e w))" by (rule Cons.IH)
  with p show ?case by simp
qed

lemma fire_single:
  "timers g = [(h, cb, d)] \<Longrightarrow> fire h e (g, st) = run_callback cb e (g\<lparr>timers := []\<rparr>, st)"
  by (simp add: fire_def)

subsection \<open>The round machine\<close>

lemmas game_eval = env_at_def example_start_def round_events_def session_events_def
  init_game_def step_def startGame_def beginRound_def clearAllTimers_def
  clearTimeout_def setTimeout_def setState_def setBg_def setMsg_def showScreen_def
  pickColorPair_def rand_def fire_def run_callback_def triggerChange_def triggerFake_def
  onGameClick_def tooEarly_def recordScore_def goToIntro_def showResults_def average_def
  Math_round_def double_eval store_eval
  ROUNDS_def MIN_DELAY_def MAX_DELAY_def FAKE_CHANCE_def FAKE_MIN_DELAY_def FAKE_MAX_DELAY_def
  FAKE_DURATION_def REAL_AFTER_FAKE_def RESULT_PAUSE_def TOO_EARLY_PAUSE_def

text \<open>
  C4. In every reachable state with \<open>state = waiting\<close>, a click or touch moves the
  machine to \<open>paused\<close>, leaves the recorded times and the round number unchanged and
  leaves exactly one pending timeout, the retry after \<open>TOO_EARLY_PAUSE\<close>; when that
  timeout fires, the machine is \<open>waiting\<close> again in the round with the same number,
  with the same recorded times, and the store has not been asked anything.
\<close>

theorem early_click_retries_same_round:
  "reachable (g, st) \<and> state g = Waiting \<longrightarrow>
     (let g' = onGameClick e g in
        state g' = Paused \<and> scores g' = scores g \<and> roundNum g' = roundNum g \<and>
        timers g' = [(nextTimer g, RetryRound, TOO_EARLY_PAUSE)] \<and>
        (let g'' = fst (fire (nextTimer g) e' (g', st')) in
           state g'' = Waiting \<and> roundNum g'' = roundNum g \<and> scores g'' = scores g) \<and>
        snd (fire (nextTimer g) e' (g', st')) = st')"
proof (intro impI)
  assume a: "reachable (g, st) \<and> state g = Waiting"
  then have "round_inv g" using reachable_inv [of "(g, st)"] by simp
  then have tr: "tracked g" by (simp add: round_inv_def)
  define g' where "g' = onGameClick e g"
  from a have click: "g' = tooEarly g" by (simp add: g'_def onGameClick_def)
  have fields: "state g' = Paused" "scores g' = scores g" "roundNum g' = roundNum g"
    "timers g' = [(nextTimer g, RetryRound, TOO_EARLY_PAUSE)]"
    by (simp_all add: click tooEarly_tracked [OF tr])
  define g1 where "g1 = (g'\<lparr>timers := []\<rparr>)\<lparr>roundNum := roundNum g' - 1\<rparr>"
  have tr1: "tracked g1" by (simp add: g1_def tracked_def)
  have retry: "fire (nextTimer g) e' (g', st') = (beginRound e' g1, st')"
    by (simp add: fire_single [OF fields(4)] run_callback_def g1_def)
  have after: "state (beginRound e' g1) = Waiting" "roundNum (beginRound e' g1) = roundNum g"
    "scores (beginRound e' g1) = scores g"
    by (simp_all add: beginRound_tracked [OF tr1]) (simp_all add: g1_def fields)
  from fields after show "let g' = onGameClick e g in
        state g' = Paused \<and> scores g' = scores g \<and> roundNum g' = roundNum g \<and>
        timers g' = [(nextTimer g, RetryRound, TOO_EARLY_PAUSE)] \<and>
        (let g'' = fst (fire (nextTimer g) e' (g', st')) in
           state g'' = Waiting \<and> roundNum g'' = roundNum g \<and> scores g'' = scores g) \<and>
        snd (fire (nextTimer g) e' (g', st')) = st'"
    unfolding Let_def g'_def [symmetric] retry by simp
qed

text \<open>
  C5. In every reachable state with \<open>state = ready\<close>, \<open>changeAt\<close> holds a time \<open>t\<close>, and a
  click or touch moves the machine to \<open>paused\<close>, appends exactly the one value
  \<open>Math.round(now - t)\<close>, the difference being the one of the doubles, to the recorded
  times and leaves exactly one pending timeout, the pause of \<open>RESULT_PAUSE\<close>; when that
  timeout fires, the machine shows the results with the average of the times if this
  was round \<open>ROUNDS\<close>, and otherwise waits in the round with the next number. The
  appended integer is the elapsed time to within half a millisecond and the rounding
  of the subtraction, at most \<open>2^-23\<close> ms for an elapsed time below \<open>2^31\<close> ms.
\<close>

theorem scored_click_records_and_advances:
  "reachable (g, st) \<and> state g = Ready \<longrightarrow>
     (\<exists>t. changeAt g = Some t \<and>
        (let g' = onGameClick e g in
           state g' = Paused \<and>
           scores g' = scores g @ [Math_round (double_minus (now e) t)] \<and>
           roundNum g' = roundNum g \<and>
           timers g' = [(nextTimer g, AfterScore, RESULT_PAUSE)] \<and>
           (let g'' = fst (fire (nextTimer g) e' (g', st')) in
              scores g'' = scores g' \<and>
              (if roundNum g = int ROUNDS
               then state g'' = Paused \<and> shown g'' = ResultsScreen \<and>
                    avg g'' = average (scores g') \<and> timers g'' = []
               else state g'' = Waiting \<and> roundNum g'' = roundNum g + 1))) \<and>
        (\<bar>now e - t\<bar> < 2 ^ 31 \<longrightarrow>
           \<bar>real_of_int (Math_round (double_minus (now e) t)) - (now e - t)\<bar>
             \<le> 1 / 2 + 1 / 2 ^ 23))"
proof (intro impI)
  assume a: "reachable (g, st) \<and> state g = Ready"
  then have inv: "round_inv g" using reachable_inv [of "(g, st)"] by simp
  then have tr: "tracked g" by (simp add: round_inv_def)
  from inv a obtain t where t: "changeAt g = Some t" by (auto simp: round_inv_def)
  from inv a have len: "length (scores g) < ROUNDS" and rn: "roundNum g = int (length (scores g)) + 1"
    by (simp_all add: round_inv_def in_round_def)
  define ms where "ms = Math_round (double_minus (now e) t)"
  define g' where "g' = onGameClick e g"
  from a t have click: "g' = recordScore ms g"
    by (simp add: g'_def onGameClick_def ms_def Let_def)
  have fields: "state g' = Paused" "scores g' = scores g @ [ms]" "roundNum g' = roundNum g"
    "timers g' = [(nextTimer g, AfterScore, RESULT_PAUSE)]"
    by (simp_all add: click recordScore_tracked [OF tr len])
  define g1 where "g1 = g'\<lparr>timers := []\<rparr>"
  have tr1: "tracked g1" by (simp add: g1_def tracked_def)
  have fired: "fire (nextTimer g) e' (g', st') =
      (if ROUNDS \<le> length (scores g') then showResults (g1, st') else (beginRound e' g1, st'))"
    by (simp add: fire_single [OF fields(4)] run_callback_def g1_def)
  have last_round: "ROUNDS \<le> length (scores g') \<longleftrightarrow> roundNum g = int ROUNDS"
    using len rn by (auto simp: fields)
  have res: "state (fst (showResults (g1, st'))) = Paused"
    "shown (fst (showResults (g1, st'))) = ResultsScreen"
    "avg (fst (showResults (g1, st'))) = average (scores g')"
    "timers (fst (showResults (g1, st'))) = []"
    "scores (fst (showResults (g1, st'))) = scores g'"
    by (simp_all add: showResults_fields) (simp_all add: g1_def fields)
  have nxt: "state (beginRound e' g1) = Waiting" "roundNum (beginRound e' g1) = roundNum g + 1"
    "scores (beginRound e' g1) = scores g'"
    by (simp_all add: beginRound_tracked [OF tr1]) (simp_all add: g1_def fields)
  have machine: "state g' = Paused \<and>
           scores g' = scores g @ [Math_round (double_minus (now e) t)] \<and>
           roundNum g' = roundNum g \<and>
           timers g' = [(nextTimer g, AfterScore, RESULT_PAUSE)] \<and>
           (let g'' = fst (fire (nextTimer g) e' (g', st')) in
              scores g'' = scores g' \<and>
              (if roundNum g = int ROUNDS
               then state g'' = Paused \<and> shown g'' = ResultsScreen \<and>
                    avg g'' = average (scores g') \<and> timers g'' = []
               else state g'' = Waiting \<and> roundNum g'' = roundNum g + 1))"
    unfolding Let_def fired last_round using fields res nxt by (simp add: ms_def)
  have near: "\<bar>real_of_int (Math_round (double_minus (now e) t)) - (now e - t)\<bar>
      \<le> 1 / 2 + 1 / 2 ^ 23" if "\<bar>now e - t\<bar> < 2 ^ 31"
    using double_minus_near [OF that] Math_round_near [of "double_minus (now e) t"]
    by linarith
  from t machine near show "\<exists>t. changeAt g = Some t \<and>
        (let g' = onGameClick e g in
           state g' = Paused \<and>
           scores g' = scores g @ [Math_round (double_minus (now e) t)] \<and>
           roundNum g' = roundNum g \<and>
           timers g' = [(nextTimer g, AfterScore, RESULT_PAUSE)] \<and>
           (let g'' = fst (fire (nextTimer g) e' (g', st')) in
              scores g'' = scores g' \<and>
              (if roundNum g = int ROUNDS
               then state g'' = Paused \<and> shown g'' = ResultsScreen \<and>
                    avg g'' = average (scores g') \<and> timers g'' = []
               else state g'' = Waiting \<and> roundNum g'' = roundNum g + 1))) \<and>
        (\<bar>now e - t\<bar> < 2 ^ 31 \<longrightarrow>
           \<bar>real_of_int (Math_round (double_minus (now e) t)) - (now e - t)\<bar>
             \<le> 1 / 2 + 1 / 2 ^ 23)"
    unfolding Let_def g'_def by blast
qed

lemma foldl_plus: "foldl (+) a xs = a + sum_list xs" for a :: int
  by (induction xs arbitrary: a) simp_all

lemma Math_round_nearest:
  "real_of_int (Math_round x) - 1 / 2 \<le> x \<and> x < real_of_int (Math_round x) + 1 / 2"
  unfolding Math_round_def by linarith

text \<open>
  C6. The average of a non-empty list of times is the integer nearest to their
  arithmetic mean, a half rounding up; the average of no times is not a number. The
  session with the five elapsed times 180, 150, 220, 190, 160 records exactly these,
  shows the results with average 180 once the pause after the fifth round has elapsed,
  and not before: after four rounds the machine waits in round 5.
\<close>

theorem session_average_rounded_mean:
  "average [] = None \<and>
   (xs \<noteq> [] \<longrightarrow>
      (\<exists>a. average xs = Some a \<and>
           real_of_int a - 1 / 2 \<le> real_of_int (sum_list xs) / real (length xs) \<and>
           real_of_int (sum_list xs) / real (length xs) < real_of_int a + 1 / 2)) \<and>
   average [180, 150, 220, 190, 160] = Some 180 \<and>
   scores (fst (run session_events example_start)) = [180, 150, 220, 190, 160] \<and>
   avg (fst (run session_events example_start)) = Some 180 \<and>
   shown (fst (run session_events example_start)) = ResultsScreen \<and>
   awaiting (fst (run session_events example_start))
     = [ResultsCont 180 (Normal (window example_store)) (Normal (window example_store))] \<and>
   shown (fst (run (butlast session_events) example_start)) = GameScreen \<and>
   state (fst (run (take 13 session_events) example_start)) = Waiting \<and>
   roundNum (fst (run (take 13 session_events) example_start)) = 5"
proof (intro conjI impI)
  show "average [] = None" by (simp add: average_def)
  show "\<exists>a. average xs = Some a \<and>
           real_of_int a - 1 / 2 \<le> real_of_int (sum_list xs) / real (length xs) \<and>
           real_of_int (sum_list xs) / real (length xs) < real_of_int a + 1 / 2" if "xs \<noteq> []"
    using that Math_round_nearest [of "real_of_int (sum_list xs) / real (length xs)"]
    by (simp add: average_def foldl_plus)
  show "average [180, 150, 220, 190, 160] = Some 180"
    by (simp add: average_def Math_round_def)
  show "scores (fst (run session_events example_start)) = [180, 150, 220, 190, 160]"
    by (simp add: game_eval)
  show "avg (fst (run session_events example_start)) = Some 180"
    by (simp add: game_eval)
  show "shown (fst (run session_events example_start)) = ResultsScreen"
    by (simp add: game_eval)
  show "awaiting (fst (run session_events example_start))
     = [ResultsCont 180 (Normal (window example_store)) (Normal (window example_store))]"
    by (simp add: game_eval)
  show "shown (fst (run (butlast session_events) example_start)) = GameScreen"
    by (simp add: game_eval)
  show "state (fst (run (take 13 session_events) example_start)) = Waiting"
    by (simp add: game_eval)
  show "roundNum (fst (run (take 13 session_events) example_start)) = 5"
    by (simp add: game_eval)
qed

theorem session_average_rounded_mean_witness:
  "[1, 2] \<noteq> [] \<and> average [1, 2] = Some 2 \<and> average [181, 180] = Some 181"
  using session_average_rounded_mean [of "[1, 2]"] session_average_rounded_mean [of "[181, 180]"]
  by (simp add: average_def Math_round_def)

theorem early_click_retries_same_round_witness:
  "reachable (run [(Start, env_at 0)] example_start) \<and>
   state (fst (run [(Start, env_at 0)] example_start)) = Waiting \<and>
   state (onGameClick (env_at 900) (fst (run [(Start, env_at 0)] example_start))) = Paused \<and>
   roundNum (fst (fire 2 (env_at 2300)
      (onGameClick (env_at 900) (fst (run [(Start, env_at 0)] example_start)), example_store))) = 1"
proof -
  have r: "reachable (run [(Start, env_at 0)] example_start)"
    unfolding example_start_def by (rule reachable_run) (rule reach_init)
  obtain g st where w: "run [(Start, env_at 0)] example_start = (g, st)"
    by (cases "run [(Start, env_at 0)] example_start")
  have "state g = Waiting" "nextTimer g = 2" "roundNum g = 1"
    using w [symmetric] by (simp_all add: game_eval)
  with r w early_click_retries_same_round [of g st "env_at 900" "env_at 2300" example_store]
  show ?thesis by (simp add: Let_def)
qed

theorem scored_click_records_and_advances_witness:
  "reachable (run [(Start, env_at 0), (Fire 1, env_at double_2000_2)] example_start) \<and>
   state (fst (run [(Start, env_at 0), (Fire 1, env_at double_2000_2)] example_start)) = Ready \<and>
   changeAt (fst (run [(Start, env_at 0), (Fire 1, env_at double_2000_2)] example_start))
     = Some double_2000_2 \<and>
   \<bar>double_4100_7 - double_2000_2\<bar> < 2 ^ 31 \<and>
   scores (onGameClick (env_at double_4100_7)
      (fst (run [(Start, env_at 0), (Fire 1, env_at double_2000_2)] example_start))) = [2101] \<and>
   roundNum (fst (fire 2 (env_at 5300) (onGameClick (env_at double_4100_7)
      (fst (run [(Start, env_at 0), (Fire 1, env_at double_2000_2)] example_start)),
      example_store))) = 2"
proof -
  have r: "reachable (run [(Start, env_at 0), (Fire 1, env_at double_2000_2)] example_start)"
    unfolding example_start_def by (rule reachable_run) (rule reach_init)
  obtain g st where w: "run [(Start, env_at 0), (Fire 1, env_at double_2000_2)] example_start = (g, st)"
    by (cases "run [(Start, env_at 0), (Fire 1, env_at double_2000_2)] example_start")
  have g: "state g = Ready" "nextTimer g = 2" "roundNum g = 1" "changeAt g = Some double_2000_2"
    "scores g = []"
    using w [symmetric] by (simp_all add: game_eval)
  have d: "double_minus double_4100_7 double_2000_2 = 4201 / 2"
    by (simp add: double_eval Let_def double_4100_7_def double_2000_2_def)
  have lt: "\<bar>double_4100_7 - double_2000_2\<bar> < 2 ^ 31"
    by (simp add: double_4100_7_def double_2000_2_def)
  from r w g lt
    scored_click_records_and_advances [of g st "env_at double_4100_7" "env_at 5300" example_store]
  show ?thesis by (simp add: Let_def ROUNDS_def env_at_def Math_round_def d)
qed

lemmas op_defs = startGame_def beginRound_def clearAllTimers_eq setTimeout_def setState_def
  setBg_def setMsg_def showScreen_def pickColorPair_def triggerChange_def triggerFake_def
  tooEarly_def recordScore_def goToIntro_def onGameClick_def Let_def case_prod_beta

lemma changeAt_run_callback:
  "changeAt (fst (run_callback cb e (g, st))) = changeAt g \<or>
   cb = RealChange \<and> state g = Waiting \<and> state (fst (run_callback cb e (g, st))) = Ready \<and>
     changeAt (fst (run_callback cb e (g, st))) = Some (now e)"
  by (cases cb) (simp_all add: run_callback_def op_defs showResults_fields split: option.splits)

lemma changeAt_fire:
  "changeAt (fst (fire h e (g, st))) = changeAt g \<or>
   state g = Waiting \<and> state (fst (fire h e (g, st))) = Ready \<and>
     changeAt (fst (fire h e (g, st))) = Some (now e)"
proof (cases "find (\<lambda>t. fst t = h) (timers g)")
  case None
  then show ?thesis by (simp add: fire_def)
next
  case (Some t)
  obtain h' cb d where t: "t = (h', cb, d)" by (rule prod_cases3)
  with Some changeAt_run_callback [of cb e "g\<lparr>timers := filter (\<lambda>t. fst t \<noteq> h) (timers g)\<rparr>" st]
  show ?thesis by (auto simp: fire_def)
qed

lemma changeAt_resume: "changeAt (fst (resume k (g, st))) = changeAt g"
proof -
  from resume_frame [of k g st] obtain a b c d k' where
    "fst (resume k (g, st)) =
      g\<lparr>myRankResult := a, myTs := b, rankDisplay := c, board := d, awaiting := k'\<rparr>"
    by blast
  then show ?thesis by simp
qed

lemma changeAt_submitToLeaderboard: "changeAt (fst (submitToLeaderboard (g, st))) = changeAt g"
proof -
  from submitToLeaderboard_frame [of g st] obtain a b c k where
    "fst (submitToLeaderboard (g, st)) =
      g\<lparr>submitted := a, db_name := b, saveDisabled := c, awaiting := k\<rparr>"
    by blast
  then show ?thesis by simp
qed

text \<open>
  C7 (as the code has it). In every reachable state with \<open>state = ready\<close>, \<open>changeAt\<close> is
  set. No event ever unsets or changes \<open>changeAt\<close> except the firing of the real change,
  which moves the machine from \<open>waiting\<close> to \<open>ready\<close> and stores the current time.
\<close>

theorem changeAt_set_when_ready:
  "(reachable (g, st) \<and> state g = Ready \<longrightarrow> changeAt g \<noteq> None) \<and>
   (changeAt (fst (step ev e (g, st))) = changeAt g \<or>
    (\<exists>h. ev = Fire h) \<and> state g = Waiting \<and> state (fst (step ev e (g, st))) = Ready \<and>
      changeAt (fst (step ev e (g, st))) = Some (now e))"
proof (intro conjI impI)
  assume "reachable (g, st) \<and> state g = Ready"
  with reachable_inv [of "(g, st)"] show "changeAt g \<noteq> None"
    by (simp add: round_inv_def)
next
  show "changeAt (fst (step ev e (g, st))) = changeAt g \<or>
    (\<exists>h. ev = Fire h) \<and> state g = Waiting \<and> state (fst (step ev e (g, st))) = Ready \<and>
      changeAt (fst (step ev e (g, st))) = Some (now e)"
  proof (cases ev)
    case (Fire h)
    with changeAt_fire [of h e g st] show ?thesis by (simp add: step_def)
  next
    case (Resume i)
    with changeAt_resume [of "awaiting g ! i"
        "g\<lparr>awaiting := take i (awaiting g) @ drop (Suc i) (awaiting g)\<rparr>" st]
    show ?thesis by (simp add: step_def)
  next
    case Save
    with changeAt_submitToLeaderboard [of g st] show ?thesis by (simp add: step_def)
  qed (simp_all add: step_def op_defs)
qed

theorem changeAt_set_when_ready_witness:
  "reachable (run [(Start, env_at 0), (Fire 1, env_at 3000)] example_start) \<and>
   state (fst (run [(Start, env_at 0), (Fire 1, env_at 3000)] example_start)) = Ready \<and>
   changeAt (fst (run [(Start, env_at 0), (Fire 1, env_at 3000)] example_start)) \<noteq> None"
proof -
  have r: "reachable (run [(Start, env_at 0), (Fire 1, env_at 3000)] example_start)"
    unfolding example_start_def by (rule reachable_run) (rule reach_init)
  obtain g st where w: "run [(Start, env_at 0), (Fire 1, env_at 3000)] example_start = (g, st)"
    by (cases "run [(Start, env_at 0), (Fire 1, env_at 3000)] example_start")
  have "state g = Ready"
    using w [symmetric] by (simp add: game_eval)
  with r w changeAt_set_when_ready [of g st]
  show ?thesis by simp
qed

text \<open>
  C7 as stated fails: after a round has been scored the machine is \<open>paused\<close> and
  \<open>changeAt\<close> still holds the time of the last real change.
\<close>

theorem changeAt_not_cleared_counterexample:
  "reachable (run [(Start, env_at 0), (Fire 1, env_at 3000), (Click, env_at 3180)] example_start) \<and>
   state (fst (run [(Start, env_at 0), (Fire 1, env_at 3000), (Click, env_at 3180)] example_start))
     = Paused \<and>
   changeAt (fst (run [(Start, env_at 0), (Fire 1, env_at 3000), (Click, env_at 3180)] example_start))
     = Some 3000"
proof -
  have "reachable (run [(Start, env_at 0), (Fire 1, env_at 3000), (Click, env_at 3180)] example_start)"
    unfolding example_start_def by (rule reachable_run) (rule reach_init)
  then show ?thesis by (simp add: game_eval)
qed

text \<open>
  C8 (as the code has it). The callbacks of the fake flash, of its revert and of the
  real change do nothing at all unless \<open>state = waiting\<close>: when such a timeout comes
  due in any other state, also one that was never revoked, nothing changes but the
  list of pending timeouts. The two pause callbacks do not look at the state: the retry
  after an early click always starts a round, and the pause after a score shows the
  results on \<open>ROUNDS\<close> scores and starts a round otherwise.
\<close>

theorem trigger_callbacks_guarded:
  "(state g \<noteq> Waiting \<longrightarrow>
      run_callback FakeFire e (g, st) = (g, st) \<and> run_callback RealChange e (g, st) = (g, st) \<and>
      run_callback FakeRevert e (g, st) = (g, st)) \<and>
   (find (\<lambda>t. fst t = h) (timers g) = Some (h, cb, d) \<and> state g \<noteq> Waiting \<and>
    (cb = FakeFire \<or> cb = RealChange \<or> cb = FakeRevert) \<longrightarrow>
      fire h e (g, st) = (g\<lparr>timers := filter (\<lambda>t. fst t \<noteq> h) (timers g)\<rparr>, st)) \<and>
   state (fst (run_callback RetryRound e (g, st))) = Waiting \<and>
   (ROUNDS \<le> length (scores g) \<longrightarrow> run_callback AfterScore e (g, st) = showResults (g, st)) \<and>
   (length (scores g) < ROUNDS \<longrightarrow> state (fst (run_callback AfterScore e (g, st))) = Waiting)"
proof (intro conjI impI)
  have guarded: "run_callback FakeFire e (g', st) = (g', st) \<and>
      run_callback RealChange e (g', st) = (g', st) \<and>
      run_callback FakeRevert e (g', st) = (g', st)" if "state g' \<noteq> Waiting" for g'
    using that by (simp add: run_callback_def)
  show "run_callback FakeFire e (g, st) = (g, st)" "run_callback RealChange e (g, st) = (g, st)"
    "run_callback FakeRevert e (g, st) = (g, st)" if "state g \<noteq> Waiting"
    using guarded [OF that] by simp_all
  show "fire h e (g, st) = (g\<lparr>timers := filter (\<lambda>t. fst t \<noteq> h) (timers g)\<rparr>, st)"
    if a: "find (\<lambda>t. fst t = h) (timers g) = Some (h, cb, d) \<and> state g \<noteq> Waiting \<and>
      (cb = FakeFire \<or> cb = RealChange \<or> cb = FakeRevert)"
  proof -
    define g1 where "g1 = g\<lparr>timers := filter (\<lambda>t. fst t \<noteq> h) (timers g)\<rparr>"
    from a have "state g1 \<noteq> Waiting" by (simp add: g1_def)
    then have "run_callback cb e (g1, st) = (g1, st)" using a guarded [of g1] by auto
    moreover from a have "fire h e (g, st) = run_callback cb e (g1, st)"
      by (simp add: fire_def g1_def)
    ultimately show ?thesis by (simp add: g1_def)
  qed
  have start: "state (beginRound e g') = Waiting" for g'
    by (simp add: beginRound_def clearAllTimers_eq setState_def setBg_def setMsg_def
          setTimeout_def pickColorPair_def Let_def case_prod_beta)
  show "state (fst (run_callback RetryRound e (g, st))) = Waiting"
    by (simp add: run_callback_def start)
  show "run_callback AfterScore e (g, st) = showResults (g, st)" if "ROUNDS \<le> length (scores g)"
    using that by (simp add: run_callback_def)
  show "state (fst (run_callback AfterScore e (g, st))) = Waiting" if "length (scores g) < ROUNDS"
    using that by (simp add: run_callback_def start)
qed

theorem trigger_callbacks_guarded_witness:
  "state (fst (run [(Start, env_at 0), (Click, env_at 900)] example_start)) \<noteq> Waiting \<and>
   run_callback RealChange (env_at 3000) (run [(Start, env_at 0), (Click, env_at 900)] example_start)
     = run [(Start, env_at 0), (Click, env_at 900)] example_start \<and>
   length (scores (fst (run [(Start, env_at 0), (Click, env_at 900)] example_start))) < ROUNDS \<and>
   state (fst (run_callback AfterScore (env_at 3000)
      (run [(Start, env_at 0), (Click, env_at 900)] example_start))) = Waiting \<and>
   ROUNDS \<le> length (scores (fst (run (butlast session_events) example_start))) \<and>
   run_callback AfterScore (env_at 25000) (run (butlast session_events) example_start)
     = showResults (run (butlast session_events) example_start) \<and>
   find (\<lambda>t. fst t = 1) (timers ((fst (run [(Start, env_at 0)] example_start))\<lparr>state := Paused\<rparr>))
     = Some (1, RealChange, 4000) \<and>
   fire 1 (env_at 4000) ((fst (run [(Start, env_at 0)] example_start))\<lparr>state := Paused\<rparr>, example_store)
     = ((fst (run [(Start, env_at 0)] example_start))\<lparr>state := Paused, timers := []\<rparr>, example_store)"
proof -
  obtain g2 st2 where w2: "run [(Start, env_at 0), (Click, env_at 900)] example_start = (g2, st2)"
    by (cases "run [(Start, env_at 0), (Click, env_at 900)] example_start")
  obtain g5 st5 where w5: "run (butlast session_events) example_start = (g5, st5)"
    by (cases "run (butlast session_events) example_start")
  have f: "state g2 = Paused" "scores g2 = []" "scores g5 = [180, 150, 220, 190, 160]"
    "timers (fst (run [(Start, env_at 0)] example_start)) = [(1, RealChange, 4000)]"
    using w2 [symmetric] w5 [symmetric] by (simp_all add: game_eval)
  with w2 w5 trigger_callbacks_guarded [of g2 "env_at 3000" st2]
    trigger_callbacks_guarded [of g5 "env_at 25000" st5]
    trigger_callbacks_guarded
    [of "(fst (run [(Start, env_at 0)] example_start))\<lparr>state := Paused\<rparr>" "env_at 4000"
        example_store 1 RealChange 4000]
  show ?thesis by (simp add: ROUNDS_def)
qed

text \<open>
  C8 as stated fails: after an early click the machine is \<open>paused\<close>, and the pending
  retry callback, firing in that state, moves it to \<open>waiting\<close>.
\<close>

theorem pause_callback_unguarded_counterexample:
  "reachable (run [(Start, env_at 0), (Click, env_at 900)] example_start) \<and>
   state (fst (run [(Start, env_at 0), (Click, env_at 900)] example_start)) = Paused \<and>
   timers (fst (run [(Start, env_at 0), (Click, env_at 900)] example_start))
     = [(2, RetryRound, 1400)] \<and>
   state (fst (step (Fire 2) (env_at 2300)
      (run [(Start, env_at 0), (Click, env_at 900)] example_start))) = Waiting"
proof -
  have "reachable (run [(Start, env_at 0), (Click, env_at 900)] example_start)"
    unfolding example_start_def by (rule reachable_run) (rule reach_init)
  then show ?thesis by (simp add: game_eval)
qed

subsection \<open>The results screen and the submission\<close>

lemma pending_Nil: "timers g = [] \<Longrightarrow> \<not> pending cb g"
  by (simp add: pending_def)

lemma average_Some: "xs \<noteq> [] \<Longrightarrow> average xs \<noteq> None"
  by (simp add: average_def)

lemma results_fire:
  assumes i: "round_inv g" and r: "results_inv g"
  shows "results_inv (fst (fire h e (g, st)))"
proof (cases "find (\<lambda>t. fst t = h) (timers g)")
  case None
  with r show ?thesis by (simp add: fire_def)
next
  case (Some t)
  obtain h' cb d where t: "t = (h', cb, d)" by (rule prod_cases3)
  with Some find_SomeD [of "\<lambda>t. fst t = h" "timers g" t]
  have mem: "(h, cb, d) \<in> set (timers g)" by auto
  then have ne: "timers g \<noteq> []" by auto
  with r have sh: "shown g \<noteq> ResultsScreen" by (auto simp: results_inv_def)
  define g1 where "g1 = g\<lparr>timers := filter (\<lambda>t. fst t \<noteq> h) (timers g)\<rparr>"
  have f: "fire h e (g, st) = run_callback cb e (g1, st)"
    by (simp add: fire_def Some t g1_def)
  have empty: "alone cb g \<Longrightarrow> timers g1 = []"
    using alone_single [OF _ mem] by (simp add: g1_def)
  have pend: "pending cb g" using mem by (force simp: pending_def)
  have sub: "pending AfterScore g1 \<Longrightarrow> pending AfterScore g"
    by (force simp: pending_def g1_def)
  have r1: "results_inv g1"
    using r sh sub by (auto simp: results_inv_def g1_def)
  have tr1: "tracked g1" using i by (simp add: round_inv_def tracked_def g1_def)
  have sh1: "shown g1 \<noteq> ResultsScreen" using sh by (simp add: g1_def)
  have start: "results_inv (beginRound e' g')" if "tracked g'" "shown g' \<noteq> ResultsScreen" for e' g'
    using that by (simp add: beginRound_tracked) (simp add: results_inv_def pending_def)
  show ?thesis
  proof (cases cb)
    case FakeFire
    with i have "alone cb g" by (simp add: round_inv_def)
    with empty have e1: "timers g1 = []" by simp
    with r1 sh1 FakeFire show ?thesis
      by (auto simp: f run_callback_def triggerFake_def setBg_def setTimeout_def Let_def
            results_inv_def pending_def split: option.splits)
  next
    case RealChange
    with r1 sh1 show ?thesis
      by (auto simp: f run_callback_def triggerChange_def setBg_def setState_def setMsg_def
            Let_def results_inv_def pending_def)
  next
    case FakeRevert
    with r1 sh1 show ?thesis
      by (auto simp: f run_callback_def setBg_def results_inv_def pending_def)
  next
    case RetryRound
    have "results_inv (beginRound e (g1\<lparr>roundNum := roundNum g1 - 1\<rparr>))"
      by (rule start) (use tr1 sh1 in \<open>simp_all add: tracked_def\<close>)
    with RetryRound show ?thesis by (simp add: f run_callback_def)
  next
    case AfterScore
    with i have "alone cb g" by (simp add: round_inv_def)
    with empty have e1: "timers g1 = []" by simp
    from r pend AfterScore have "state g = Paused" by (simp add: results_inv_def)
    then have st1: "state g1 = Paused" by (simp add: g1_def)
    show ?thesis
    proof (cases "ROUNDS \<le> length (scores g1)")
      case True
      then have "scores g1 \<noteq> []" by (auto simp: ROUNDS_def)
      then have "average (scores g1) \<noteq> None" by (rule average_Some)
      then have "results_inv (fst (showResults (g1, st)))"
        using e1 st1
        by (simp add: showResults_fields results_inv_def pending_def in_round_def)
      with AfterScore True show ?thesis by (simp add: f run_callback_def)
    next
      case False
      have "results_inv (beginRound e g1)" using tr1 sh1 by (rule start)
      with AfterScore False show ?thesis by (simp add: f run_callback_def)
    qed
  qed
qed

lemma results_step:
  assumes i: "round_inv g" and r: "results_inv g"
  shows "results_inv (fst (step ev e (g, st)))"
proof (cases ev)
  case Start
  from i have "tracked (showScreen GameScreen (g\<lparr>roundNum := 0, scores := []\<rparr>))"
    by (simp add: round_inv_def showScreen_def tracked_def)
  then have "results_inv (startGame e g)"
    unfolding startGame_def Let_def
    by (simp add: beginRound_tracked) (simp add: results_inv_def pending_def showScreen_def)
  with Start show ?thesis by (simp add: step_def)
next
  case Click
  from i have tr: "tracked g" by (simp add: round_inv_def)
  show ?thesis
  proof (cases "state g")
    case Waiting
    with r have "shown g \<noteq> ResultsScreen" by (auto simp: results_inv_def in_round_def)
    then have "results_inv (tooEarly g)"
      by (simp add: tooEarly_tracked [OF tr] results_inv_def pending_def)
    with Click Waiting show ?thesis by (simp add: step_def onGameClick_def)
  next
    case Ready
    with r have sh: "shown g \<noteq> ResultsScreen" by (auto simp: results_inv_def in_round_def)
    from i Ready have len: "length (scores g) < ROUNDS" by (simp add: round_inv_def in_round_def)
    from sh have "results_inv (recordScore ms g)" for ms
      by (simp add: recordScore_tracked [OF tr len] results_inv_def pending_def)
    with Click Ready show ?thesis by (simp add: step_def onGameClick_def Let_def)
  next
    case Idle
    with Click r show ?thesis by (simp add: step_def onGameClick_def)
  next
    case Paused
    with Click r show ?thesis by (simp add: step_def onGameClick_def)
  qed
next
  case (Fire h)
  with results_fire [OF i r] show ?thesis by (simp add: step_def)
next
  case PlayAgain
  from i have tr: "tracked g" by (simp add: round_inv_def)
  have "results_inv (goToIntro g)"
    by (simp add: goToIntro_tracked [OF tr] results_inv_def pending_def)
  with PlayAgain show ?thesis by (simp add: step_def)
next
  case (NameInput s)
  with r show ?thesis by (simp add: step_def results_inv_def pending_def in_round_def)
next
  case Save
  from submitToLeaderboard_frame [of g st] obtain a b c k where
    "fst (submitToLeaderboard (g, st)) =
      g\<lparr>submitted := a, db_name := b, saveDisabled := c, awaiting := k\<rparr>"
    by blast
  with Save r show ?thesis
    by (simp add: step_def results_inv_def pending_def in_round_def)
next
  case (Resume n)
  from resume_frame [of "awaiting g ! n"
      "g\<lparr>awaiting := take n (awaiting g) @ drop (Suc n) (awaiting g)\<rparr>" st]
  obtain a b c d k' where
    "fst (resume (awaiting g ! n) (g\<lparr>awaiting := take n (awaiting g) @ drop (Suc n) (awaiting g)\<rparr>, st))
      = g\<lparr>myRankResult := a, myTs := b, rankDisplay := c, board := d, awaiting := k'\<rparr>"
    by auto
  with Resume r show ?thesis
    by (simp add: step_def results_inv_def pending_def in_round_def)
qed

lemma reachable_results_inv: "reachable w \<Longrightarrow> results_inv (fst w)"
proof (induction rule: reachable.induct)
  case (reach_init best nm st)
  show ?case by (simp add: results_inv_def init_game_def pending_def)
next
  case (reach_step w ev e)
  from reach_step.hyps have "round_inv (fst w)" by (rule reachable_inv)
  with reach_step.IH results_step [of "fst w" ev e "snd w"] show ?case by simp
next
  case (reach_store g st st')
  then show ?case by simp
qed

lemma submitted_Save: "submitted g \<Longrightarrow> submitToLeaderboard (g, st) = (g, st)"
  by (simp add: submitToLeaderboard_def)

lemma quiet_step:
  assumes q: "quiet g" and ns: "ev \<noteq> Start"
  shows "quiet (fst (step ev e (g, st))) \<and> (submitted g \<longrightarrow> submitted (fst (step ev e (g, st))))"
proof (cases ev)
  case Start
  with ns show ?thesis by simp
next
  case Click
  with q show ?thesis by (simp add: step_def onGameClick_def quiet_def in_round_def)
next
  case (Fire h)
  with q show ?thesis by (simp add: step_def fire_def quiet_def)
next
  case PlayAgain
  with q show ?thesis
    by (simp add: step_def goToIntro_def clearAllTimers_eq setState_def showScreen_def Let_def
          quiet_def in_round_def)
next
  case (NameInput s)
  with q show ?thesis by (simp add: step_def quiet_def in_round_def)
next
  case Save
  from submitToLeaderboard_frame [of g st] obtain a b c k where
    "fst (submitToLeaderboard (g, st)) =
      g\<lparr>submitted := a, db_name := b, saveDisabled := c, awaiting := k\<rparr>"
    by blast
  with q have "quiet (fst (submitToLeaderboard (g, st)))" by (simp add: quiet_def in_round_def)
  with Save submitted_Save [of g st] show ?thesis by (auto simp: step_def)
next
  case (Resume n)
  from resume_frame [of "awaiting g ! n"
      "g\<lparr>awaiting := take n (awaiting g) @ drop (Suc n) (awaiting g)\<rparr>" st]
  obtain a b c d k' where
    "fst (resume (awaiting g ! n) (g\<lparr>awaiting := take n (awaiting g) @ drop (Suc n) (awaiting g)\<rparr>, st))
      = g\<lparr>myRankResult := a, myTs := b, rankDisplay := c, board := d, awaiting := k'\<rparr>"
    by auto
  with Resume q show ?thesis
    by (simp add: step_def quiet_def in_round_def)
qed

lemma quiet_run:
  "quiet (fst w) \<Longrightarrow> submitted (fst w) \<Longrightarrow> Start \<notin> fst ` set es \<Longrightarrow>
   quiet (fst (run es w)) \<and> submitted (fst (run es w))"
proof (induction es arbitrary: w)
  case Nil
  then show ?case by simp
next
  case (Cons p es)
  obtain ev e where p: "p = (ev, e)" by (cases p)
  obtain g st where w: "w = (g, st)" by (cases w)
  from Cons.prems p have ns: "ev \<noteq> Start" and rest: "Start \<notin> fst ` set es" by auto
  from Cons.prems(1,2) w quiet_step [of g ev e st, OF _ ns]
  have "quiet (fst (step ev e w))" "submitted (fst (step ev e w))" by simp_all
  then have "quiet (fst (run es (step ev e w))) \<and> submitted (fst (run es (step ev e w)))"
    using rest by (rule Cons.IH)
  with p show ?case by simp
qed

lemma afterSubmit_None:
  "myRankResult (fst (afterSubmit None (g, st))) = None \<and>
   rankDisplay (fst (afterSubmit None (g, st))) = Unranked True \<and>
   submitted (fst (afterSubmit None (g, st))) = submitted g"
  by (simp add: afterSubmit_def renderLeaderboard_def updateRankDisplay_def Let_def
        split: prod.splits)

text \<open>
  C10. While the results of a session are shown and nothing has been submitted yet, the
  first submission with a name that \<open>trim\<close> does not empty sets the \<open>_submitted\<close> flag
  and disables the save button in the very handler that issues the insert, before any
  answer of the store is awaited: the rest of the call is only suspended, and the rank
  shown is as it was. Whatever happens afterwards, short of starting a new game, the
  flag stays set, and a further submission changes nothing and asks the store nothing.
  A submission with a blank name changes nothing. When the insert fails, or the query
  after it fails or does not hold the new entry, the submission resumes with no rank:
  the rank shown is the unranked one and the flag is as it was.
\<close>

theorem submission_only_once:
  "(reachable (g, st) \<and> shown g = ResultsScreen \<and> \<not> submitted g \<and>
    trim (playerName g) \<noteq> [] \<and> Start \<notin> fst ` set es \<longrightarrow>
      (\<exists>sc. avg g = Some sc \<and>
         (let n = trim (playerName g); w1 = step Save e (g, st); w2 = run es w1 in
            submitted (fst w1) \<and> saveDisabled (fst w1) \<and>
            snd w1 = snd (add_doc st n sc) \<and>
            awaiting (fst w1) = awaiting g @ [SubmitCont n sc (fst (add_doc st n sc))] \<and>
            myRankResult (fst w1) = myRankResult g \<and> rankDisplay (fst w1) = rankDisplay g \<and>
            submitted (fst w2) \<and> step Save e' w2 = w2))) \<and>
   (trim (playerName g0) = [] \<longrightarrow> step Save e (g0, st0) = (g0, st0)) \<and>
   (let w = resume (SubmitCont n0 sc0 (Throw x)) (g0, st0) in
      myRankResult (fst w) = None \<and> rankDisplay (fst w) = Unranked True \<and>
      submitted (fst w) = submitted g0) \<and>
   (submit_done ref answer sc0 = None \<longrightarrow>
      (let w = resume (QueryCont sc0 ref answer) (g0, st0) in
         myRankResult (fst w) = None \<and> rankDisplay (fst w) = Unranked True \<and>
         submitted (fst w) = submitted g0))"
proof (intro conjI impI)
  assume a: "reachable (g, st) \<and> shown g = ResultsScreen \<and> \<not> submitted g \<and>
    trim (playerName g) \<noteq> [] \<and> Start \<notin> fst ` set es"
  with reachable_results_inv [of "(g, st)"] have q: "quiet g" and av: "avg g \<noteq> None"
    by (simp_all add: results_inv_def quiet_def)
  from av obtain sc where sc: "avg g = Some sc" by auto
  define n where "n = trim (playerName g)"
  define w1 where "w1 = step Save e (g, st)"
  from a sc have w1: "w1 = (g\<lparr>submitted := True, db_name := Some n, saveDisabled := True,
      awaiting := awaiting g @ [SubmitCont n sc (fst (add_doc st n sc))]\<rparr>, snd (add_doc st n sc))"
    by (simp add: w1_def n_def step_def submitToLeaderboard_def Let_def split: prod.splits)
  from q have q1: "quiet (fst w1)" by (simp add: w1 quiet_def in_round_def)
  have s1: "submitted (fst w1)" by (simp add: w1)
  from a have "Start \<notin> fst ` set es" by simp
  with q1 s1 have s2: "submitted (fst (run es w1))" using quiet_run [of w1 es] by simp
  have noop: "step Save e' (run es w1) = run es w1"
    using s2 by (cases "run es w1") (simp add: step_def submitted_Save)
  have "submitted (fst w1) \<and> saveDisabled (fst w1) \<and>
            snd w1 = snd (add_doc st n sc) \<and>
            awaiting (fst w1) = awaiting g @ [SubmitCont n sc (fst (add_doc st n sc))] \<and>
            myRankResult (fst w1) = myRankResult g \<and> rankDisplay (fst w1) = rankDisplay g \<and>
            submitted (fst (run es w1)) \<and> step Save e' (run es w1) = run es w1"
    using s2 noop by (simp add: w1)
  with sc show "\<exists>sc. avg g = Some sc \<and>
         (let n = trim (playerName g); w1 = step Save e (g, st); w2 = run es w1 in
            submitted (fst w1) \<and> saveDisabled (fst w1) \<and>
            snd w1 = snd (add_doc st n sc) \<and>
            awaiting (fst w1) = awaiting g @ [SubmitCont n sc (fst (add_doc st n sc))] \<and>
            myRankResult (fst w1) = myRankResult g \<and> rankDisplay (fst w1) = rankDisplay g \<and>
            submitted (fst w2) \<and> step Save e' w2 = w2)"
    unfolding Let_def w1_def n_def by blast
next
  assume "trim (playerName g0) = []"
  then show "step Save e (g0, st0) = (g0, st0)"
    by (simp add: step_def submitToLeaderboard_def)
next
  show "let w = resume (SubmitCont n0 sc0 (Throw x)) (g0, st0) in
      myRankResult (fst w) = None \<and> rankDisplay (fst w) = Unranked True \<and>
      submitted (fst w) = submitted g0"
    using afterSubmit_None [of g0 st0] by (simp add: resume_def)
next
  assume "submit_done ref answer sc0 = None"
  then show "let w = resume (QueryCont sc0 ref answer) (g0, st0) in
         myRankResult (fst w) = None \<and> rankDisplay (fst w) = Unranked True \<and>
         submitted (fst w) = submitted g0"
    using afterSubmit_None [of g0 st0] by (simp add: resume_def)
qed

lemmas flow_eval = offline_start_def results_events_def resume_def renderLeaderboard_def
  renderBoard_def updateRankDisplay_def submitToLeaderboard_def afterSubmit_def
  peek_done_def getTop_done_def submit_done_def trim_def is_space_def

theorem submission_only_once_witness:
  "reachable (run results_events offline_start) \<and>
   shown (fst (run results_events offline_start)) = ResultsScreen \<and>
   \<not> submitted (fst (run results_events offline_start)) \<and>
   trim (playerName (fst (run results_events offline_start))) = ascii ''amy'' \<and>
   Start \<notin> fst ` set [(Resume 1, env_at 31000), (Save, env_at 32000)] \<and>
   submitted (fst (run [(Resume 1, env_at 31000), (Save, env_at 32000)]
      (step Save (env_at 30500) (run results_events offline_start)))) \<and>
   myRankResult (fst (run [(Resume 1, env_at 31000), (Save, env_at 32000)]
      (step Save (env_at 30500) (run results_events offline_start)))) = None \<and>
   issued (snd (run results_events offline_start)) = 2 \<and>
   issued (snd (step Save (env_at 30500) (run results_events offline_start))) = 3 \<and>
   trim (playerName ((init_game None None)\<lparr>playerName := [0x00A0]\<rparr>)) = [] \<and>
   step Save (env_at 30500) ((init_game None None)\<lparr>playerName := [0x00A0]\<rparr>, example_store)
     = ((init_game None None)\<lparr>playerName := [0x00A0]\<rparr>, example_store) \<and>
   submit_done 3 (Throw BackendError) 180 = None"
proof -
  have r: "reachable (run results_events offline_start)"
    unfolding offline_start_def by (rule reachable_run) (rule reach_init)
  obtain g st where w: "run results_events offline_start = (g, st)"
    by (cases "run results_events offline_start")
  have g: "shown g = ResultsScreen" "\<not> submitted g" "avg g = Some 180"
    "playerName g = [0x00A0, 0x0020] @ ascii ''amy'' @ [0x3000]"
    using w [symmetric] by (simp_all add: game_eval flow_eval)
  have st: "st = example_store\<lparr>faults := [True], issued := 2\<rparr>"
    using w [symmetric] by (simp add: game_eval flow_eval)
  have t: "trim (playerName g) = ascii ''amy''"
    by (simp add: g trim_def is_space_def ascii_def)
  have i3: "issued (snd (add_doc st (ascii ''amy'') 180)) = 3"
    by (simp add: st store_eval)
  have blank: "trim (playerName ((init_game None None)\<lparr>playerName := [0x00A0]\<rparr>)) = []"
    by (simp add: trim_def is_space_def)
  have none: "submit_done 3 (Throw BackendError) 180 = None"
    by (simp add: submit_done_def)
  have i2: "issued st = 2" by (simp add: st)
  have failed: "myRankResult (fst (run [(Resume 1, env_at 31000), (Save, env_at 32000)]
      (step Save (env_at 30500) (run results_events offline_start)))) = None"
    by (simp add: game_eval flow_eval)
  have ne: "ascii ''amy'' \<noteq> []" by (simp add: ascii_def)
  from r w g(1-3) t ne i2 i3 blank none failed
    submission_only_once [where g = g and st = st
      and es = "[(Resume 1, env_at 31000), (Save, env_at 32000)]"
      and e = "env_at 30500" and e' = "env_at 33000"
      and ?g0.0 = "(init_game None None)\<lparr>playerName := [0x00A0]\<rparr>"
      and ?st0.0 = example_store and ?n0.0 = "ascii ''amy''" and ?sc0.0 = 180
      and x = BackendError and ref = 3 and answer = "Throw BackendError"]
  show ?thesis by (simp add: Let_def)
qed

end
